theory Spec2Isabelle
  imports Complex_Main "HOL-Library.AList" "HOL-Library.Sublist"
begin

section \<open>Python values and exceptions\<close>

text \<open>
  The values that travel through \<^verbatim>\<open>backend/app.py\<close> are what \<^verbatim>\<open>json.loads\<close> and
  \<^verbatim>\<open>request.json()\<close> produce. A Python \<^verbatim>\<open>str\<close> is modelled by the byte string of its
  UTF-8 encoding, a \<^verbatim>\<open>dict\<close> by the list of its items in insertion order.
\<close>

datatype json =
    JNull
  | JBool bool
  | JInt int
  | JFloat rat
  | JStr string
  | JArr "json list"
  | JObj "(string \<times> json) list"

text \<open>Truth value of a Python object (\<^verbatim>\<open>if not x\<close>).\<close>

fun truthy :: "json \<Rightarrow> bool" where
  "truthy JNull = False"
| "truthy (JBool b) = b"
| "truthy (JInt i) = (i \<noteq> 0)"
| "truthy (JFloat r) = (r \<noteq> 0)"
| "truthy (JStr s) = (s \<noteq> [])"
| "truthy (JArr xs) = (xs \<noteq> [])"
| "truthy (JObj kvs) = (kvs \<noteq> [])"

text \<open>
  The exception classes the program can meet, each carrying its message.
  \<^verbatim>\<open>HTTPException\<close> carries the status code and the detail. All of them derive
  from \<^verbatim>\<open>Exception\<close>.
\<close>

datatype exn =
    JSONDecodeError string
  | HTTPException nat string
  | AttributeError string
  | KeyError string
  | TypeError string
  | FileExistsError string
  | FileNotFoundError string
  | NotADirectoryError string
  | IsADirectoryError string
  | CalledProcessError string
  | OtherException string

fun digit_char :: "nat \<Rightarrow> char" where
  "digit_char n = char_of (48 + n mod 10)"

fun str_of_nat :: "nat \<Rightarrow> string" where
  "str_of_nat n = (if n < 10 then [digit_char n] else str_of_nat (n div 10) @ [digit_char n])"

declare str_of_nat.simps [simp del]

text \<open>\<^verbatim>\<open>str(e)\<close>: the message; Starlette prints an \<^verbatim>\<open>HTTPException\<close> as
  \<^verbatim>\<open>"{status_code}: {detail}"\<close>.\<close>

fun exn_str :: "exn \<Rightarrow> string" where
  "exn_str (JSONDecodeError m) = m"
| "exn_str (HTTPException c d) = str_of_nat c @ '': '' @ d"
| "exn_str (AttributeError m) = m"
| "exn_str (KeyError m) = m"
| "exn_str (TypeError m) = m"
| "exn_str (FileExistsError m) = m"
| "exn_str (FileNotFoundError m) = m"
| "exn_str (NotADirectoryError m) = m"
| "exn_str (IsADirectoryError m) = m"
| "exn_str (CalledProcessError m) = m"
| "exn_str (OtherException m) = m"

text \<open>\<^verbatim>\<open>d.get(k, default)\<close> and \<^verbatim>\<open>d[k]\<close> on the items of a dict.\<close>

definition dict_get :: "(string \<times> json) list \<Rightarrow> string \<Rightarrow> json \<Rightarrow> json" where
  "dict_get d k dflt = (case map_of d k of Some v \<Rightarrow> v | None \<Rightarrow> dflt)"

definition dict_item :: "(string \<times> json) list \<Rightarrow> string \<Rightarrow> exn + json" where
  "dict_item d k = (case map_of d k of Some v \<Rightarrow> Inr v | None \<Rightarrow> Inl (KeyError k))"

section \<open>Path strings (posixpath)\<close>

text \<open>\<^verbatim>\<open>s.split('/')\<close>.\<close>

fun split_sep :: "string \<Rightarrow> string list" where
  "split_sep [] = [[]]"
| "split_sep (c # cs) =
     (if c = CHR ''/'' then [] # split_sep cs
      else (case split_sep cs of [] \<Rightarrow> [[c]] | w # ws \<Rightarrow> (c # w) # ws))"

text \<open>\<^verbatim>\<open>'/'.join(parts)\<close>.\<close>

fun join_sep :: "string list \<Rightarrow> string" where
  "join_sep [] = []"
| "join_sep [w] = w"
| "join_sep (w # v # ws) = w @ ''/'' @ join_sep (v # ws)"

text \<open>\<^verbatim>\<open>os.path.join(a, b)\<close>.\<close>

definition os_path_join :: "string \<Rightarrow> string \<Rightarrow> string" where
  "os_path_join a b =
     (if take 1 b = ''/'' then b
      else if a = [] \<or> last a = CHR ''/'' then a @ b
      else a @ ''/'' @ b)"

text \<open>\<^verbatim>\<open>os.path.dirname(p)\<close>: the text up to the last slash, without trailing slashes
  unless it consists of slashes only.\<close>

definition os_path_dirname :: "string \<Rightarrow> string" where
  "os_path_dirname p =
     (let head = rev (dropWhile (\<lambda>c. c \<noteq> CHR ''/'') (rev p))
      in if head \<noteq> [] \<and> head \<noteq> replicate (length head) (CHR ''/'')
         then rev (dropWhile (\<lambda>c. c = CHR ''/'') (rev head))
         else head)"

text \<open>
  A normalised absolute path is the list of its components. One component of a path
  string moves the current directory: an empty component and \<^verbatim>\<open>.\<close> stay, \<^verbatim>\<open>..\<close> goes
  to the parent (the root is its own parent), a name goes down.
\<close>

type_synonym path = "string list"

definition step :: "path \<Rightarrow> string \<Rightarrow> path" where
  "step cur c =
     (if c = [] \<or> c = ''.'' then cur else if c = ''..'' then butlast cur else cur @ [c])"

text \<open>\<^verbatim>\<open>os.path.normpath(os.path.abspath(s))\<close> as components; the working directory
  is taken to be the root, and every path the program builds is absolute.\<close>

definition normpath :: "string \<Rightarrow> path" where
  "normpath s = foldl step [] (split_sep s)"

fun common_prefix :: "path \<Rightarrow> path \<Rightarrow> nat" where
  "common_prefix (x # xs) (y # ys) = (if x = y then Suc (common_prefix xs ys) else 0)"
| "common_prefix _ _ = 0"

text \<open>\<^verbatim>\<open>os.path.relpath(p, start)\<close>.\<close>

definition os_path_relpath :: "string \<Rightarrow> string \<Rightarrow> string" where
  "os_path_relpath p start =
     (let start_list = normpath start;
          path_list = normpath p;
          i = common_prefix start_list path_list;
          rel_list = replicate (length start_list - i) ''..'' @ drop i path_list
      in if rel_list = [] then ''.'' else join_sep rel_list)"

section \<open>The file system\<close>

text \<open>
  The file system is a table from normalised absolute paths to nodes; the root is always
  a directory. Permissions, symbolic links and a full disk are outside the model: an
  operation fails only for the reasons written here.
\<close>

datatype node = Dir | File string

type_synonym filesystem = "(path \<times> node) list"

definition lookup :: "filesystem \<Rightarrow> path \<Rightarrow> node option" where
  "lookup fs p = (if p = [] then Some Dir else map_of fs p)"

text \<open>Following the components of a path string from a directory: every directory that
  is passed through must exist; the place reached need not.\<close>

fun walk_to :: "filesystem \<Rightarrow> path \<Rightarrow> string list \<Rightarrow> exn + path" where
  "walk_to fs cur [] = Inr cur"
| "walk_to fs cur (c # cs) =
     (case lookup fs cur of
        None \<Rightarrow> Inl (FileNotFoundError (join_sep cur))
      | Some (File _) \<Rightarrow> Inl (NotADirectoryError (join_sep cur))
      | Some Dir \<Rightarrow> walk_to fs (step cur c) cs)"

definition resolve :: "filesystem \<Rightarrow> string \<Rightarrow> exn + path" where
  "resolve fs s = walk_to fs [] (split_sep s)"

definition os_path_exists :: "filesystem \<Rightarrow> string \<Rightarrow> bool" where
  "os_path_exists fs s = (case resolve fs s of Inl _ \<Rightarrow> False | Inr p \<Rightarrow> lookup fs p \<noteq> None)"

text \<open>\<^verbatim>\<open>os.mkdir(s)\<close>.\<close>

definition os_mkdir :: "filesystem \<Rightarrow> string \<Rightarrow> exn + filesystem" where
  "os_mkdir fs s =
     (case resolve fs s of
        Inl e \<Rightarrow> Inl e
      | Inr p \<Rightarrow>
          (case lookup fs p of
             Some _ \<Rightarrow> Inl (FileExistsError s)
           | None \<Rightarrow> Inr (fs @ [(p, Dir)])))"

text \<open>
  \<^verbatim>\<open>os.makedirs(s, exist_ok=True)\<close>: every directory on the way is created when it is
  missing; a regular file on the way, or at the end, is an error.
\<close>

definition ensure_dir :: "filesystem \<Rightarrow> path \<Rightarrow> exn + filesystem" where
  "ensure_dir fs p =
     (case lookup fs p of
        Some Dir \<Rightarrow> Inr fs
      | Some (File _) \<Rightarrow> Inl (FileExistsError (join_sep p))
      | None \<Rightarrow> Inr (fs @ [(p, Dir)]))"

fun makedirs_from :: "filesystem \<Rightarrow> path \<Rightarrow> string list \<Rightarrow> (exn + unit) \<times> filesystem" where
  "makedirs_from fs cur [] =
     (case ensure_dir fs cur of Inl e \<Rightarrow> (Inl e, fs) | Inr fs' \<Rightarrow> (Inr (), fs'))"
| "makedirs_from fs cur (c # cs) =
     (case ensure_dir fs cur of
        Inl e \<Rightarrow> (Inl e, fs)
      | Inr fs' \<Rightarrow> makedirs_from fs' (step cur c) cs)"

definition os_makedirs :: "filesystem \<Rightarrow> string \<Rightarrow> (exn + unit) \<times> filesystem" where
  "os_makedirs fs s = makedirs_from fs [] (split_sep s)"

text \<open>\<^verbatim>\<open>open(s, "w").write(data)\<close> (also \<^verbatim>\<open>"wb"\<close>): the file is created or replaced.\<close>

definition open_write :: "filesystem \<Rightarrow> string \<Rightarrow> string \<Rightarrow> exn + filesystem" where
  "open_write fs s data =
     (case resolve fs s of
        Inl e \<Rightarrow> Inl e
      | Inr p \<Rightarrow>
          (case lookup fs p of
             Some Dir \<Rightarrow> Inl (IsADirectoryError s)
           | _ \<Rightarrow> Inr (AList.update p (File data) fs)))"

text \<open>The bytes of a file (\<^verbatim>\<open>open(s, "rb").read()\<close>).\<close>

definition read_bytes :: "filesystem \<Rightarrow> string \<Rightarrow> exn + string" where
  "read_bytes fs s =
     (case resolve fs s of
        Inl e \<Rightarrow> Inl e
      | Inr p \<Rightarrow>
          (case lookup fs p of
             Some (File b) \<Rightarrow> Inr b
           | Some Dir \<Rightarrow> Inl (IsADirectoryError s)
           | None \<Rightarrow> Inl (FileNotFoundError s)))"

text \<open>
  \<^verbatim>\<open>shutil.rmtree(s, onerror=handle_remove_readonly)\<close>. A directory goes with all it
  holds. When the path does not exist, \<^verbatim>\<open>lstat\<close> fails, the handler finds the path not
  writable and its \<^verbatim>\<open>os.chmod\<close> raises. On a regular file \<^verbatim>\<open>scandir\<close> and \<^verbatim>\<open>rmdir\<close> fail,
  the handler finds the path writable and does nothing: the file stays.
\<close>

definition rmtree :: "filesystem \<Rightarrow> string \<Rightarrow> exn + filesystem" where
  "rmtree fs s =
     (case resolve fs s of
        Inl e \<Rightarrow> Inl e
      | Inr p \<Rightarrow>
          (case lookup fs p of
             None \<Rightarrow> Inl (FileNotFoundError s)
           | Some (File _) \<Rightarrow> Inr fs
           | Some Dir \<Rightarrow> Inr (filter (\<lambda>(q, n). take (length p) q \<noteq> p) fs)))"

text \<open>
  \<^verbatim>\<open>os.walk(top)\<close>, top-down, where the loop body removes from \<^verbatim>\<open>dirs\<close> the names
  that \<open>skip\<close> holds for, so that the walk does not enter them. A walk yields one triple
  \<^verbatim>\<open>(root, dirs, files)\<close> for every directory it visits; \<^verbatim>\<open>root\<close> is the string the
  names were joined to. A top that is no directory yields nothing. The order of the
  triples is the table's (the operating system fixes none).
\<close>

definition children :: "filesystem \<Rightarrow> path \<Rightarrow> (string \<times> node) list" where
  "children fs d = [(last q, n). (q, n) \<leftarrow> fs, q \<noteq> [], butlast q = d]"

definition os_walk ::
  "filesystem \<Rightarrow> string \<Rightarrow> (string \<Rightarrow> bool) \<Rightarrow> (string \<times> string list \<times> string list) list" where
  "os_walk fs tp skip =
     (case resolve fs tp of
        Inl _ \<Rightarrow> []
      | Inr t \<Rightarrow>
          (case lookup fs t of
             Some Dir \<Rightarrow>
               [(foldl os_path_join tp (drop (length t) d),
                 [c. (c, n) \<leftarrow> children fs d, n = Dir, \<not> skip c],
                 [c. (c, n) \<leftarrow> children fs d, n \<noteq> Dir]).
                d \<leftarrow> t # [q. (q, n) \<leftarrow> fs, n = Dir, length t < length q, take (length t) q = t],
                \<not> list_ex skip (drop (length t) d)]
           | _ \<Rightarrow> []))"

text \<open>
  A zip archive is the list of its entries, name and bytes. \<^verbatim>\<open>zipf.write(file_path,
  arcname)\<close> for every file of a walk of \<open>dir\<close>, the entry named by the file's path
  relative to \<open>dir\<close>.
\<close>

type_synonym archive = "(string \<times> string) list"

fun zip_write_all :: "filesystem \<Rightarrow> string \<Rightarrow> string list \<Rightarrow> exn + archive" where
  "zip_write_all fs dir [] = Inr []"
| "zip_write_all fs dir (file_path # rest) =
     (case read_bytes fs file_path of
        Inl e \<Rightarrow> Inl e
      | Inr b \<Rightarrow>
          (case zip_write_all fs dir rest of
             Inl e \<Rightarrow> Inl e
           | Inr es \<Rightarrow> Inr ((os_path_relpath file_path dir, b) # es)))"

definition zip_tree :: "filesystem \<Rightarrow> string \<Rightarrow> exn + archive" where
  "zip_tree fs dir =
     zip_write_all fs dir
       [os_path_join rt file. (rt, dirs, files) \<leftarrow> os_walk fs dir (\<lambda>d. False), file \<leftarrow> files]"

section \<open>The world around the program\<close>

text \<open>
  What the program gets from outside is a parameter of the model: the chat-completion
  service (its answer may depend on how many calls came before), \<^verbatim>\<open>re.search\<close> with the
  pattern of the fenced json block (the text of group 1 when it matches), \<^verbatim>\<open>json.loads\<close>,
  \<^verbatim>\<open>json.dumps\<close>, \<^verbatim>\<open>str\<close>, the two prompt texts (each a pure function of what the
  f-string interpolates), the two decoders of \<^verbatim>\<open>open(..., "r")\<close>, \<^verbatim>\<open>git clone\<close> (the tree
  it checks out, relative to the clone directory), the zip encoding, the names
  \<^verbatim>\<open>tempfile.mkdtemp\<close> tries, \<^verbatim>\<open>tempfile.gettempdir()\<close> and the Downloads folder of the
  home directory.
\<close>

record file_record =
  fr_file_path :: string
  fr_classification :: json
  fr_reason :: json
  fr_conversion_type :: json
  fr_content :: string

type_synonym project_structure = "(string \<times> file_record list) list"

record env =
  llm_invoke :: "nat \<Rightarrow> string \<Rightarrow> exn + string"
  re_search_json :: "string \<Rightarrow> string option"
  json_loads :: "string \<Rightarrow> exn + json"
  json_dumps :: "json \<Rightarrow> string"
  py_str :: "json \<Rightarrow> string"
  classify_prompt :: "string \<Rightarrow> string \<Rightarrow> string"
  mvc_prompt :: "project_structure \<Rightarrow> string \<Rightarrow> string"
  decode_utf8 :: "string \<Rightarrow> string option"
  decode_cp1252 :: "string \<Rightarrow> string option"
  git_clone :: "string \<Rightarrow> exn + (path \<times> node) list"
  zip_encode :: "archive \<Rightarrow> string"
  tmp_names :: "string list"
  tempdir :: string
  downloads :: string

text \<open>The state a request changes: the file system, the prompts sent to the service so
  far, and the lines printed to the console.\<close>

record world =
  disk :: filesystem
  llm_calls :: "string list"
  console :: "string list"

definition print :: "world \<Rightarrow> string \<Rightarrow> world" where
  "print s msg = s\<lparr>console := console s @ [msg]\<rparr>"

definition llm_chain_invoke :: "env \<Rightarrow> world \<Rightarrow> string \<Rightarrow> (exn + string) \<times> world" where
  "llm_chain_invoke env s prompt =
     (llm_invoke env (length (llm_calls s)) prompt, s\<lparr>llm_calls := llm_calls s @ [prompt]\<rparr>)"

text \<open>\<^verbatim>\<open>tempfile.mkdtemp()\<close>: the first candidate name that \<^verbatim>\<open>os.mkdir\<close> accepts.\<close>

fun mkdtemp_loop :: "filesystem \<Rightarrow> string \<Rightarrow> string list \<Rightarrow> (exn + string) \<times> filesystem" where
  "mkdtemp_loop fs dir [] = (Inl (FileExistsError ''No usable temporary directory name found''), fs)"
| "mkdtemp_loop fs dir (name # names) =
     (case os_mkdir fs (os_path_join dir name) of
        Inr fs' \<Rightarrow> (Inr (os_path_join dir name), fs')
      | Inl (FileExistsError m) \<Rightarrow> mkdtemp_loop fs dir names
      | Inl e \<Rightarrow> (Inl e, fs))"

definition mkdtemp :: "env \<Rightarrow> world \<Rightarrow> (exn + string) \<times> world" where
  "mkdtemp env s =
     (case mkdtemp_loop (disk s) (tempdir env) (tmp_names env) of
        (r, fs') \<Rightarrow> (r, s\<lparr>disk := fs'\<rparr>))"

section \<open>The program: \<^verbatim>\<open>backend/app.py\<close>\<close>

subsection \<open>\<^verbatim>\<open>read_file_content\<close>\<close>

text \<open>
  UTF-8 first; on \<^verbatim>\<open>UnicodeDecodeError\<close> windows-1252, and \<^verbatim>\<open>None\<close> when that fails
  too; \<^verbatim>\<open>None\<close> on any other exception of the first \<^verbatim>\<open>open\<close>.
\<close>

definition read_file_content :: "env \<Rightarrow> world \<Rightarrow> string \<Rightarrow> string option \<times> world" where
  "read_file_content env s file_path =
     (case read_bytes (disk s) file_path of
        Inl e \<Rightarrow> (None, print s (''Failed to read file '' @ file_path @ '': '' @ exn_str e))
      | Inr b \<Rightarrow>
          (case decode_utf8 env b of
             Some t \<Rightarrow> (Some t, s)
           | None \<Rightarrow>
               (case decode_cp1252 env b of
                  Some t \<Rightarrow> (Some t, s)
                | None \<Rightarrow> (None, print s (''Skipping binary file: '' @ file_path)))))"

subsection \<open>\<^verbatim>\<open>classify_file_with_openai\<close>\<close>

text \<open>The record the \<^verbatim>\<open>except json.JSONDecodeError\<close> branch returns.\<close>

definition default_classification :: "string \<Rightarrow> exn \<Rightarrow> json" where
  "default_classification file_path e =
     JObj [(''file_path'', JStr file_path),
           (''classification'', JStr ''unknown''),
           (''reason'', JStr (''JSON parsing error: '' @ exn_str e)),
           (''category'', JStr ''Other''),
           (''conversion_type'', JStr ''Unknown'')]"

text \<open>The \<^verbatim>\<open>try\<close> body from the answer on: the fenced block when the pattern
  matches, the whole answer otherwise.\<close>

definition parse_response :: "env \<Rightarrow> string \<Rightarrow> exn + json" where
  "parse_response env response =
     (case re_search_json env response of
        Some group1 \<Rightarrow> json_loads env group1
      | None \<Rightarrow> json_loads env response)"

definition classify_file_with_openai ::
  "env \<Rightarrow> world \<Rightarrow> string \<Rightarrow> string \<Rightarrow> (exn + json) \<times> world" where
  "classify_file_with_openai env s file_path content =
     (let s1 = print s (''Classifying file: '' @ file_path);
          (r, s2) = llm_chain_invoke env s1 (classify_prompt env file_path content);
          tried = (case r of Inl e \<Rightarrow> Inl e | Inr response \<Rightarrow> parse_response env response)
      in case tried of
           Inr v \<Rightarrow> (Inr v, s2)
         | Inl (JSONDecodeError m) \<Rightarrow>
             (Inr (default_classification file_path (JSONDecodeError m)),
              print s2 (''JSON Decode Error: '' @ m))
         | Inl e \<Rightarrow> (Inl e, s2))"

subsection \<open>\<^verbatim>\<open>analyze_asp_project\<close>\<close>

definition empty_structure :: project_structure where
  "empty_structure =
     [(''Views'', []), (''Controllers'', []), (''Models'', []), (''Configurations'', []), (''Other'', [])]"

text \<open>\<^verbatim>\<open>category in project_structure\<close>: a list or a dict cannot be hashed, and the test
  raises \<^verbatim>\<open>TypeError\<close> with the name of the type in quotes (the character 39).\<close>

definition contains_key :: "project_structure \<Rightarrow> json \<Rightarrow> exn + bool" where
  "contains_key ps c =
     (case c of
        JArr _ \<Rightarrow> Inl (TypeError (''unhashable type: '' @ [char_of (39 :: nat)] @ ''list'' @ [char_of (39 :: nat)]))
      | JObj _ \<Rightarrow> Inl (TypeError (''unhashable type: '' @ [char_of (39 :: nat)] @ ''dict'' @ [char_of (39 :: nat)]))
      | JStr k \<Rightarrow> Inr (k \<in> set (map fst ps))
      | _ \<Rightarrow> Inr False)"

text \<open>\<^verbatim>\<open>project_structure[category].append(r)\<close>.\<close>

definition append_to :: "project_structure \<Rightarrow> json \<Rightarrow> file_record \<Rightarrow> project_structure" where
  "append_to ps category r = map (\<lambda>(k, rs). if JStr k = category then (k, rs @ [r]) else (k, rs)) ps"

text \<open>The inner function \<^verbatim>\<open>analyze_file\<close>; \<^verbatim>\<open>project_structure\<close> is the dict of the
  enclosing call, which it changes.\<close>

definition analyze_file ::
  "env \<Rightarrow> world \<Rightarrow> project_structure \<Rightarrow> string \<Rightarrow> (exn + unit) \<times> world \<times> project_structure" where
  "analyze_file env s ps file_path =
     (case read_file_content env s file_path of
        (None, s1) \<Rightarrow> (Inr (), s1, ps)
      | (Some content, s1) \<Rightarrow>
          if content = [] then (Inr (), s1, ps)
          else
            (case classify_file_with_openai env s1 file_path content of
               (Inl e, s2) \<Rightarrow> (Inl e, s2, ps)
             | (Inr (JObj d), s2) \<Rightarrow>
                 (let category = dict_get d ''category'' (JStr ''Other'')
                  in case contains_key ps category of
                       Inl e \<Rightarrow> (Inl e, s2, ps)
                     | Inr False \<Rightarrow> (Inr (), s2, ps)
                     | Inr True \<Rightarrow>
                         (case dict_item d ''classification'' of
                            Inl e \<Rightarrow> (Inl e, s2, ps)
                          | Inr c \<Rightarrow>
                              (case dict_item d ''reason'' of
                                 Inl e \<Rightarrow> (Inl e, s2, ps)
                               | Inr rsn \<Rightarrow>
                                   (Inr (), s2,
                                    append_to ps category
                                      \<lparr>fr_file_path = file_path,
                                       fr_classification = c,
                                       fr_reason = rsn,
                                       fr_conversion_type = dict_get d ''conversion_type'' (JStr ''Unknown''),
                                       fr_content = content\<rparr>))))
             | (Inr _, s2) \<Rightarrow> (Inl (AttributeError ''object has no attribute get''), s2, ps)))"

text \<open>\<^verbatim>\<open>file.lower().endswith(('.asp', '.asa', '.inc', '.html', '.css', '.js'))\<close>; of
  \<^verbatim>\<open>lower\<close> only what it does to ASCII letters matters for these suffixes.\<close>

definition lower_char :: "char \<Rightarrow> char" where
  "lower_char c =
     (if 65 \<le> (of_char c :: nat) \<and> (of_char c :: nat) \<le> 90 then char_of ((of_char c :: nat) + 32) else c)"

definition endswith :: "string \<Rightarrow> string \<Rightarrow> bool" where
  "endswith s suf = (length suf \<le> length s \<and> drop (length s - length suf) s = suf)"

definition has_source_extension :: "string \<Rightarrow> bool" where
  "has_source_extension file =
     list_ex (endswith (map lower_char file)) [''.asp'', ''.asa'', ''.inc'', ''.html'', ''.css'', ''.js'']"

text \<open>
  The tasks handed to the executor, in the order of submission: one for each file of
  the walk with a listed extension, the walk not entering a directory named \<^verbatim>\<open>.git\<close>.
\<close>

definition submitted_files :: "filesystem \<Rightarrow> string \<Rightarrow> string list" where
  "submitted_files fs project_path =
     [os_path_join rt file.
        (rt, dirs, files) \<leftarrow> os_walk fs project_path (\<lambda>d. d = ''.git''),
        file \<leftarrow> files, has_source_extension file]"

text \<open>
  The pool runs every submitted task; here they run one after the other, in the order
  of submission. The outcome of each (its exception, if it raised) is what its future
  holds.
\<close>

fun run_tasks ::
  "env \<Rightarrow> world \<Rightarrow> project_structure \<Rightarrow> string list \<Rightarrow> (exn + unit) list \<times> world \<times> project_structure" where
  "run_tasks env s ps [] = ([], s, ps)"
| "run_tasks env s ps (file_path # rest) =
     (case analyze_file env s ps file_path of
        (r, s1, ps1) \<Rightarrow>
          (case run_tasks env s1 ps1 rest of
             (rs, s2, ps2) \<Rightarrow> (r # rs, s2, ps2)))"

text \<open>The loop over the futures: \<^verbatim>\<open>future.result()\<close> under \<^verbatim>\<open>except Exception\<close>.\<close>

fun collect_results :: "world \<Rightarrow> (exn + unit) list \<Rightarrow> world" where
  "collect_results s [] = s"
| "collect_results s (Inl e # rs) = collect_results (print s (''Error processing file: '' @ exn_str e)) rs"
| "collect_results s (Inr u # rs) = collect_results s rs"

definition analyze_asp_project :: "env \<Rightarrow> world \<Rightarrow> string \<Rightarrow> project_structure \<times> world" where
  "analyze_asp_project env s project_path =
     (case run_tasks env s empty_structure (submitted_files (disk s) project_path) of
        (rs, s1, ps) \<Rightarrow> (ps, collect_results s1 rs))"

subsection \<open>\<^verbatim>\<open>generate_mvc_with_openai\<close>\<close>

definition generate_mvc_with_openai ::
  "env \<Rightarrow> world \<Rightarrow> project_structure \<Rightarrow> string \<Rightarrow> (exn + json) \<times> world" where
  "generate_mvc_with_openai env s analysis_data project_name =
     (let s1 = print s (''Generating MVC project files for '' @ project_name @ '' with analysis data.'');
          (r, s2) = llm_chain_invoke env s1 (mvc_prompt env analysis_data project_name);
          (tried, s3) =
            (case r of
               Inl e \<Rightarrow> (Inl e, s2)
             | Inr response \<Rightarrow>
                 (parse_response env response, print s2 (''Raw OpenAI Response: '' @ response)))
      in case tried of
           Inr v \<Rightarrow> (Inr v, s3)
         | Inl (JSONDecodeError m) \<Rightarrow> (Inr (JObj []), print s3 ''Error generating MVC project files'')
         | Inl e \<Rightarrow> (Inl e, s3))"

subsection \<open>\<^verbatim>\<open>clone_and_zip_repo\<close>\<close>

text \<open>\<^verbatim>\<open>subprocess.run(["git", "clone", github_url, temp_clone_path], check=True)\<close>: an
  argument that is no string is a \<^verbatim>\<open>TypeError\<close>; a clone that works fills the directory.\<close>

definition run_git_clone :: "env \<Rightarrow> world \<Rightarrow> json \<Rightarrow> string \<Rightarrow> (exn + unit) \<times> world" where
  "run_git_clone env s github_url temp_clone_path =
     (case github_url of
        JStr url \<Rightarrow>
          (case git_clone env url of
             Inl e \<Rightarrow> (Inl e, s)
           | Inr tree \<Rightarrow>
               (case resolve (disk s) temp_clone_path of
                  Inl e \<Rightarrow> (Inl e, s)
                | Inr p \<Rightarrow> (Inr (), s\<lparr>disk := disk s @ map (\<lambda>(q, n). (p @ q, n)) tree\<rparr>)))
      | _ \<Rightarrow> (Inl (TypeError ''expected str, bytes or os.PathLike object''), s))"

text \<open>The \<^verbatim>\<open>try\<close> body; \<^verbatim>\<open>ZipFile(zip_path, 'w')\<close> opens (and empties) the file before
  the walk, and closing it writes the archive.\<close>

definition clone_and_zip_body :: "env \<Rightarrow> world \<Rightarrow> json \<Rightarrow> (exn + string \<times> string) \<times> world" where
  "clone_and_zip_body env s github_url =
     (case mkdtemp env s of
        (Inl e, s1) \<Rightarrow> (Inl e, s1)
      | (Inr temp_clone_path, s1) \<Rightarrow>
          (let s2 = print s1 (''Cloning repository from '' @ py_str env github_url @ '' to ''
                              @ temp_clone_path @ ''...'')
           in case run_git_clone env s2 github_url temp_clone_path of
                (Inl e, s3) \<Rightarrow> (Inl e, s3)
              | (Inr u, s3) \<Rightarrow>
                  (let s4 = print s3 ''Repository cloned successfully.'';
                       zip_path = os_path_join (tempdir env) ''cloned_repo.zip''
                   in case open_write (disk s4) zip_path [] of
                        Inl e \<Rightarrow> (Inl e, s4)
                      | Inr fs5 \<Rightarrow>
                          (case zip_tree fs5 temp_clone_path of
                             Inl e \<Rightarrow> (Inl e, s4\<lparr>disk := fs5\<rparr>)
                           | Inr entries \<Rightarrow>
                               (case open_write fs5 zip_path (zip_encode env entries) of
                                  Inl e \<Rightarrow> (Inl e, s4\<lparr>disk := fs5\<rparr>)
                                | Inr fs6 \<Rightarrow>
                                    (Inr (zip_path, temp_clone_path),
                                     print (s4\<lparr>disk := fs6\<rparr>)
                                       (''Repository zipped successfully to '' @ zip_path @ ''.'')))))))"

text \<open>\<^verbatim>\<open>(None, None)\<close> is \<open>None\<close>.\<close>

definition clone_and_zip_repo :: "env \<Rightarrow> world \<Rightarrow> json \<Rightarrow> (string \<times> string) option \<times> world" where
  "clone_and_zip_repo env s github_url =
     (case clone_and_zip_body env s github_url of
        (Inr paths, s1) \<Rightarrow> (Some paths, s1)
      | (Inl e, s1) \<Rightarrow> (None, print s1 (''Failed to clone and zip repository: '' @ exn_str e)))"

subsection \<open>\<^verbatim>\<open>save_zip_to_downloads\<close>\<close>

definition save_zip_to_downloads :: "env \<Rightarrow> world \<Rightarrow> string \<Rightarrow> string \<Rightarrow> (exn + unit) \<times> world" where
  "save_zip_to_downloads env s project_dir zip_file_name =
     (case zip_tree (disk s) project_dir of
        Inl e \<Rightarrow> (Inl e, s)
      | Inr entries \<Rightarrow>
          (let zip_file_path = os_path_join (downloads env) zip_file_name
           in case open_write (disk s) zip_file_path (zip_encode env entries) of
                Inl e \<Rightarrow> (Inl e, s)
              | Inr fs' \<Rightarrow>
                  (Inr (), print (s\<lparr>disk := fs'\<rparr>) (''Project zipped successfully to '' @ zip_file_path))))"

subsection \<open>\<^verbatim>\<open>process_github\<close>\<close>

text \<open>\<^verbatim>\<open>s.replace('.git', '')\<close>.\<close>

fun remove_dotgit :: "string \<Rightarrow> string" where
  "remove_dotgit [] = []"
| "remove_dotgit (c # cs) =
     (if take 4 (c # cs) = ''.git'' then remove_dotgit (drop 3 cs) else c # remove_dotgit cs)"

text \<open>What is written for a value of the mapping: a dict as \<^verbatim>\<open>json.dumps(content,
  indent=4)\<close>, a string as it is, anything else as \<^verbatim>\<open>str(content)\<close>.\<close>

definition file_text :: "env \<Rightarrow> json \<Rightarrow> string" where
  "file_text env content =
     (case content of
        JObj d \<Rightarrow> json_dumps env content
      | JStr t \<Rightarrow> t
      | _ \<Rightarrow> py_str env content)"

text \<open>The loop \<^verbatim>\<open>for relative_path, content in mvc_content.items()\<close>.\<close>

fun write_project_files ::
  "env \<Rightarrow> filesystem \<Rightarrow> string \<Rightarrow> (string \<times> json) list \<Rightarrow> (exn + unit) \<times> filesystem" where
  "write_project_files env fs project_dir [] = (Inr (), fs)"
| "write_project_files env fs project_dir ((relative_path, content) # rest) =
     (let file_path = os_path_join project_dir relative_path
      in case os_makedirs fs (os_path_dirname file_path) of
           (Inl e, fs1) \<Rightarrow> (Inl e, fs1)
         | (Inr u, fs1) \<Rightarrow>
             (case open_write fs1 file_path (file_text env content) of
                Inl e \<Rightarrow> (Inl e, fs1)
              | Inr fs2 \<Rightarrow> write_project_files env fs2 project_dir rest))"

record streaming_response =
  body :: archive
  media_type :: string
  headers :: "(string \<times> string) list"

text \<open>The two \<^verbatim>\<open>rmtree\<close> calls under \<^verbatim>\<open># Clean up\<close>.\<close>

definition clean_up :: "filesystem \<Rightarrow> string \<Rightarrow> string \<Rightarrow> exn + filesystem" where
  "clean_up fs temp_clone_path output_dir =
     (case (if os_path_exists fs temp_clone_path then rmtree fs temp_clone_path else Inr fs) of
        Inl e \<Rightarrow> Inl e
      | Inr fs1 \<Rightarrow> rmtree fs1 output_dir)"

text \<open>The body of the \<^verbatim>\<open>try\<close> statement, from the mapping on.\<close>

definition build_response ::
  "env \<Rightarrow> world \<Rightarrow> string \<Rightarrow> string \<Rightarrow> json \<Rightarrow> (exn + streaming_response) \<times> world" where
  "build_response env s temp_clone_path project_name mvc_content =
     (case mkdtemp env s of
        (Inl e, s1) \<Rightarrow> (Inl e, s1)
      | (Inr output_dir, s1) \<Rightarrow>
          (let project_dir = os_path_join output_dir project_name
           in case os_makedirs (disk s1) project_dir of
                (Inl e, fs2) \<Rightarrow> (Inl e, s1\<lparr>disk := fs2\<rparr>)
              | (Inr u, fs2) \<Rightarrow>
                  (case mvc_content of
                     JObj items \<Rightarrow>
                       (case write_project_files env fs2 project_dir items of
                          (Inl e, fs3) \<Rightarrow> (Inl e, s1\<lparr>disk := fs3\<rparr>)
                        | (Inr u, fs3) \<Rightarrow>
                            (case zip_tree fs3 project_dir of
                               Inl e \<Rightarrow> (Inl e, s1\<lparr>disk := fs3\<rparr>)
                             | Inr zip_buffer \<Rightarrow>
                                 (case save_zip_to_downloads env (s1\<lparr>disk := fs3\<rparr>) project_dir
                                         (project_name @ ''.zip'') of
                                    (Inl e, s4) \<Rightarrow> (Inl e, s4)
                                  | (Inr u, s4) \<Rightarrow>
                                      (case clean_up (disk s4) temp_clone_path output_dir of
                                         Inl e \<Rightarrow> (Inl e, s4)
                                       | Inr fs5 \<Rightarrow>
                                           (Inr \<lparr>body = zip_buffer,
                                                 media_type = ''application/zip'',
                                                 headers =
                                                   [(''Content-Disposition'',
                                                     ''attachment; filename='' @ project_name
                                                       @ ''_mvc_project.zip'')]\<rparr>,
                                            s4\<lparr>disk := fs5\<rparr>)))))
                   | _ \<Rightarrow> (Inl (AttributeError ''object has no attribute items''), s1\<lparr>disk := fs2\<rparr>))))"

text \<open>The \<^verbatim>\<open>try\<close> body up to the mapping: what it hands on is the clone directory,
  the project name and the mapping.\<close>

definition clone_analyze_generate ::
  "env \<Rightarrow> world \<Rightarrow> json \<Rightarrow> (exn + string \<times> string \<times> json) \<times> world" where
  "clone_analyze_generate env s github_url =
     (case clone_and_zip_repo env s github_url of
        (None, s1) \<Rightarrow> (Inl (HTTPException 500 ''Failed to clone repository''), s1)
      | (Some (zip_path, temp_clone_path), s1) \<Rightarrow>
          if zip_path = [] then (Inl (HTTPException 500 ''Failed to clone repository''), s1)
          else
            (case analyze_asp_project env s1 temp_clone_path of
               (asp_structure, s2) \<Rightarrow>
                 (case github_url of
                    JStr url \<Rightarrow>
                      (let project_name = remove_dotgit (last (split_sep url))
                       in case generate_mvc_with_openai env s2 asp_structure project_name of
                            (Inl e, s3) \<Rightarrow> (Inl e, s3)
                          | (Inr mvc_content, s3) \<Rightarrow>
                              (Inr (temp_clone_path, project_name, mvc_content), s3))
                  | _ \<Rightarrow> (Inl (AttributeError ''object has no attribute split''), s2))))"

text \<open>The whole \<^verbatim>\<open>try\<close> body.\<close>

definition process_body :: "env \<Rightarrow> world \<Rightarrow> json \<Rightarrow> (exn + streaming_response) \<times> world" where
  "process_body env s github_url =
     (case clone_analyze_generate env s github_url of
        (Inl e, s3) \<Rightarrow> (Inl e, s3)
      | (Inr (temp_clone_path, project_name, mvc_content), s3) \<Rightarrow>
          build_response env s3 temp_clone_path project_name mvc_content)"

text \<open>
  The endpoint, on the parsed body of the request. An exception that leaves it is what
  the framework answers from: an \<^verbatim>\<open>HTTPException\<close> with its status code and detail.
\<close>

definition process_github :: "env \<Rightarrow> world \<Rightarrow> json \<Rightarrow> (exn + streaming_response) \<times> world" where
  "process_github env s data =
     (case data of
        JObj d \<Rightarrow>
          (let github_url = dict_get d ''githubUrl'' JNull
           in if \<not> truthy github_url then (Inl (HTTPException 400 ''GitHub URL is required''), s)
              else
                (case process_body env s github_url of
                   (Inr response, s1) \<Rightarrow> (Inr response, s1)
                 | (Inl e, s1) \<Rightarrow>
                     (Inl (HTTPException 500 (exn_str e)),
                      print s1 (''Error processing GitHub URL: '' @ exn_str e))))
      | _ \<Rightarrow> (Inl (AttributeError ''object has no attribute get''), s))"

text \<open>
  The routes of the application, each with its methods and its path. \<^verbatim>\<open>app = FastAPI()\<close>,
  with the default arguments, serves the OpenAPI schema and the documentation pages
  (a \<^verbatim>\<open>GET\<close> route answers \<^verbatim>\<open>HEAD\<close> too); \<^verbatim>\<open>@app.post("/process-github")\<close> adds the one
  route of the module.
\<close>

type_synonym route = "string list \<times> string"

definition fastapi_routes :: "route list" where
  "fastapi_routes =
     [([''GET'', ''HEAD''], ''/openapi.json''),
      ([''GET'', ''HEAD''], ''/docs''),
      ([''GET'', ''HEAD''], ''/docs/oauth2-redirect''),
      ([''GET'', ''HEAD''], ''/redoc'')]"

definition app_routes :: "route list" where
  "app_routes = fastapi_routes @ [([''POST''], ''/process-github'')]"

section \<open>Side conditions and invariants\<close>

text \<open>
  A plain name is a path component that names something in its directory; a key of the
  mapping is a relative path in normal form when all its components are plain names.
\<close>

definition clean_name :: "string \<Rightarrow> bool" where
  "clean_name c = (c \<noteq> [] \<and> c \<noteq> ''.'' \<and> c \<noteq> ''..'' \<and> CHR ''/'' \<notin> set c)"

definition clean_key :: "string \<Rightarrow> bool" where
  "clean_key k = list_all clean_name (split_sep k)"

text \<open>Directories stay directories.\<close>

definition dirs_kept :: "filesystem \<Rightarrow> filesystem \<Rightarrow> bool" where
  "dirs_kept fs fs' = (\<forall>p. lookup fs p = Some Dir \<longrightarrow> lookup fs' p = Some Dir)"

text \<open>
  A disk is well-formed when no path is listed twice and every entry lies in a directory;
  so is the tree a clone checks out.
\<close>

definition wf_disk :: "filesystem \<Rightarrow> bool" where
  "wf_disk fs = (distinct (map fst fs) \<and> list_all (\<lambda>(q, n). q \<noteq> [] \<and> lookup fs (butlast q) = Some Dir) fs)"

definition wf_tree :: "(path \<times> node) list \<Rightarrow> bool" where
  "wf_tree tree =
     (distinct (map fst tree) \<and>
      list_all (\<lambda>(q, n). q \<noteq> [] \<and> (butlast q = [] \<or> map_of tree (butlast q) = Some Dir)) tree)"

text \<open>
  What holds of the project directory \<open>pp\<close> while the mapping is written: it is a
  directory; whatever lies below it is the file of a written key, with the text of its
  value, or a directory on the way to such a file; and every written key has its file,
  below directories only.
\<close>

definition project_inv :: "env \<Rightarrow> filesystem \<Rightarrow> path \<Rightarrow> (string \<times> json) list \<Rightarrow> bool" where
  "project_inv env fs pp written =
     (lookup fs pp = Some Dir \<and>
      (\<forall>q. strict_prefix pp q \<longrightarrow> lookup fs q \<noteq> None \<longrightarrow>
         (\<exists>(k, v) \<in> set written.
            (q = pp @ split_sep k \<and> lookup fs q = Some (File (file_text env v))) \<or>
            (strict_prefix q (pp @ split_sep k) \<and> lookup fs q = Some Dir))) \<and>
      (\<forall>(k, v) \<in> set written.
         lookup fs (pp @ split_sep k) = Some (File (file_text env v)) \<and>
         (\<forall>p. prefix pp p \<longrightarrow> strict_prefix p (pp @ split_sep k) \<longrightarrow> lookup fs p = Some Dir)))"

section \<open>A small world to run the program in\<close>

text \<open>
  A service that answers \<^verbatim>\<open>{}\<close> to every prompt, a parser that knows that one text,
  a repository with the single file \<^verbatim>\<open>a.asp\<close>, and a disk with \<^verbatim>\<open>/tmp\<close> and
  \<^verbatim>\<open>/home/Downloads\<close>.
\<close>

definition env0 :: env where
  "env0 = \<lparr>llm_invoke = (\<lambda>n p. Inr ''{}''),
           re_search_json = (\<lambda>r. None),
           json_loads = (\<lambda>t. if t = ''{}'' then Inr (JObj []) else Inl (JSONDecodeError ''Expecting value'')),
           json_dumps = (\<lambda>j. ''{}''),
           py_str = (\<lambda>j. ''?''),
           classify_prompt = (\<lambda>p c. p),
           mvc_prompt = (\<lambda>ps n. n),
           decode_utf8 = Some,
           decode_cp1252 = Some,
           git_clone = (\<lambda>u. Inr [([''a.asp''], File ''hi'')]),
           zip_encode = (\<lambda>a. ''zip''),
           tmp_names = [''t1'', ''t2''],
           tempdir = ''/tmp'',
           downloads = ''/home/Downloads''\<rparr>"

definition world0 :: world where
  "world0 = \<lparr>disk = [([''tmp''], Dir), ([''home''], Dir), ([''home'', ''Downloads''], Dir)],
              llm_calls = [], console = []\<rparr>"

text \<open>A service that classifies every file as a view, one that invents a category, and a
  checked-out repository.\<close>

definition env_views :: env where
  "env_views = env0\<lparr>llm_invoke := (\<lambda>n p. Inr ''v''),
     json_loads := (\<lambda>t. if t = ''v''
        then Inr (JObj [(''classification'', JStr ''conversion_needed''), (''reason'', JStr ''page''),
                        (''category'', JStr ''Views''), (''conversion_type'', JStr ''Razor View'')])
        else Inl (JSONDecodeError ''Expecting value''))\<rparr>"

definition env_odd :: env where
  "env_odd = env0\<lparr>llm_invoke := (\<lambda>n p. Inr ''o''),
     json_loads := (\<lambda>t. if t = ''o''
        then Inr (JObj [(''classification'', JStr ''conversion_needed''), (''reason'', JStr ''page''),
                        (''category'', JStr ''Pages'')])
        else Inl (JSONDecodeError ''Expecting value''))\<rparr>"

definition world_repo :: world where
  "world_repo = \<lparr>disk = [([''repo''], Dir), ([''repo'', ''a.asp''], File ''hi''),
                         ([''repo'', ''empty.asp''], File []), ([''repo'', ''README.md''], File ''readme''),
                         ([''repo'', ''.git''], Dir), ([''repo'', ''.git'', ''hook.js''], File ''x'')],
                  llm_calls = [], console = []\<rparr>"

text \<open>A \<^verbatim>\<open>git clone\<close> that fails, and the body of a request.\<close>

definition env_noclone :: env where
  "env_noclone = env0\<lparr>git_clone := (\<lambda>u. Inl (CalledProcessError ''git clone returned non-zero exit status 128''))\<rparr>"

definition data0 :: json where
  "data0 = JObj [(''githubUrl'', JStr ''https://github.com/u/shop.git'')]"

text \<open>A service whose second answer is a project of two files, one whose second answer
  names a file outside the project directory, one whose second answer is no JSON, and
  one whose second call fails.\<close>

definition env_project :: env where
  "env_project = env0\<lparr>llm_invoke := (\<lambda>n p. if n = 0 then Inr ''{}'' else Inr ''m''),
     json_loads := (\<lambda>t. if t = ''{}'' then Inr (JObj [])
        else if t = ''m'' then Inr (JObj [(''Views/a.cshtml'', JStr ''x''), (''Program.cs'', JStr ''y'')])
        else Inl (JSONDecodeError ''Expecting value''))\<rparr>"

definition env_escape :: env where
  "env_escape = env0\<lparr>llm_invoke := (\<lambda>n p. if n = 0 then Inr ''{}'' else Inr ''m''),
     json_loads := (\<lambda>t. if t = ''{}'' then Inr (JObj [])
        else if t = ''m'' then Inr (JObj [(''Views/a.cshtml'', JStr ''x''), (''../b.txt'', JStr ''y'')])
        else Inl (JSONDecodeError ''Expecting value''))\<rparr>"

definition env_prose :: env where
  "env_prose = env0\<lparr>llm_invoke := (\<lambda>n p. if n = 0 then Inr ''{}'' else Inr ''Sorry, I cannot do that'')\<rparr>"

definition env_down :: env where
  "env_down = env0\<lparr>llm_invoke := (\<lambda>n p. if n = 0 then Inr ''{}'' else Inl (OtherException ''Connection error''))\<rparr>"

text \<open>A service that gives a list as category, a service that cannot be reached, a parser
  that fails with another exception, and requests whose URL ends in a slash and in
  \<^verbatim>\<open>...git\<close>.\<close>

definition env_list :: env where
  "env_list = env0\<lparr>llm_invoke := (\<lambda>n p. Inr ''l''),
     json_loads := (\<lambda>t. if t = ''l''
        then Inr (JObj [(''classification'', JStr ''conversion_needed''), (''reason'', JStr ''page''),
                        (''category'', JArr [JStr ''Views''])])
        else Inl (JSONDecodeError ''Expecting value''))\<rparr>"

definition env_unreachable :: env where
  "env_unreachable = env0\<lparr>llm_invoke := (\<lambda>n p. Inl (OtherException ''Connection error''))\<rparr>"

definition env_deep :: env where
  "env_deep = env0\<lparr>llm_invoke := (\<lambda>n p. Inr ''[[[[''),
     json_loads := (\<lambda>t. Inl (OtherException ''maximum recursion depth exceeded''))\<rparr>"

definition data_slash :: json where
  "data_slash = JObj [(''githubUrl'', JStr ''https://github.com/u/shop/'')]"

definition data_dots :: json where
  "data_dots = JObj [(''githubUrl'', JStr ''https://github.com/u/...git'')]"

section \<open>Classification falls back to a default record\<close>

text \<open>
  C2, as amended. When the service answers and the answer does not parse as JSON
  (\<^verbatim>\<open>json.loads\<close> raises \<^verbatim>\<open>JSONDecodeError\<close> on the fenced block when there is one, on
  the whole answer otherwise), \<^verbatim>\<open>classify_file_with_openai\<close> returns the default record
  for the file (classification \<^verbatim>\<open>unknown\<close>, category \<^verbatim>\<open>Other\<close>, conversion type
  \<^verbatim>\<open>Unknown\<close>) and prints the error; nothing is raised. An exception of any other class
  is not caught there: whether the call to the service raises it or \<^verbatim>\<open>json.loads\<close>,
  it leaves \<^verbatim>\<open>classify_file_with_openai\<close>, and nothing more is printed.
\<close>

theorem classify_malformed_default:
  "(\<forall>response m.
      llm_invoke env (length (llm_calls s)) (classify_prompt env file_path content) = Inr response \<longrightarrow>
      parse_response env response = Inl (JSONDecodeError m) \<longrightarrow>
      classify_file_with_openai env s file_path content =
        (Inr (JObj [(''file_path'', JStr file_path), (''classification'', JStr ''unknown''),
                    (''reason'', JStr (''JSON parsing error: '' @ m)), (''category'', JStr ''Other''),
                    (''conversion_type'', JStr ''Unknown'')]),
         s\<lparr>llm_calls := llm_calls s @ [classify_prompt env file_path content],
           console := console s @ [''Classifying file: '' @ file_path, ''JSON Decode Error: '' @ m]\<rparr>))
   \<and> (\<forall>e.
      llm_invoke env (length (llm_calls s)) (classify_prompt env file_path content) = Inl e \<longrightarrow>
      (\<forall>m. e \<noteq> JSONDecodeError m) \<longrightarrow>
      classify_file_with_openai env s file_path content =
        (Inl e,
         s\<lparr>llm_calls := llm_calls s @ [classify_prompt env file_path content],
           console := console s @ [''Classifying file: '' @ file_path]\<rparr>))
   \<and> (\<forall>response e.
      llm_invoke env (length (llm_calls s)) (classify_prompt env file_path content) = Inr response \<longrightarrow>
      parse_response env response = Inl e \<longrightarrow>
      (\<forall>m. e \<noteq> JSONDecodeError m) \<longrightarrow>
      classify_file_with_openai env s file_path content =
        (Inl e,
         s\<lparr>llm_calls := llm_calls s @ [classify_prompt env file_path content],
           console := console s @ [''Classifying file: '' @ file_path]\<rparr>))"
proof (intro conjI allI impI)
  fix response m
  assume "llm_invoke env (length (llm_calls s)) (classify_prompt env file_path content) = Inr response"
    and "parse_response env response = Inl (JSONDecodeError m)"
  then show "classify_file_with_openai env s file_path content =
        (Inr (JObj [(''file_path'', JStr file_path), (''classification'', JStr ''unknown''),
                    (''reason'', JStr (''JSON parsing error: '' @ m)), (''category'', JStr ''Other''),
                    (''conversion_type'', JStr ''Unknown'')]),
         s\<lparr>llm_calls := llm_calls s @ [classify_prompt env file_path content],
           console := console s @ [''Classifying file: '' @ file_path, ''JSON Decode Error: '' @ m]\<rparr>)"
    by (simp add: classify_file_with_openai_def llm_chain_invoke_def print_def default_classification_def)
next
  fix e
  assume "llm_invoke env (length (llm_calls s)) (classify_prompt env file_path content) = Inl e"
    and "\<forall>m. e \<noteq> JSONDecodeError m"
  then show "classify_file_with_openai env s file_path content =
        (Inl e,
         s\<lparr>llm_calls := llm_calls s @ [classify_prompt env file_path content],
           console := console s @ [''Classifying file: '' @ file_path]\<rparr>)"
    by (cases e) (simp_all add: classify_file_with_openai_def llm_chain_invoke_def print_def)
next
  fix response e
  assume "llm_invoke env (length (llm_calls s)) (classify_prompt env file_path content) = Inr response"
    and "parse_response env response = Inl e"
    and "\<forall>m. e \<noteq> JSONDecodeError m"
  then show "classify_file_with_openai env s file_path content =
        (Inl e,
         s\<lparr>llm_calls := llm_calls s @ [classify_prompt env file_path content],
           console := console s @ [''Classifying file: '' @ file_path]\<rparr>)"
    by (cases e) (simp_all add: classify_file_with_openai_def llm_chain_invoke_def print_def)
qed

theorem classify_malformed_default_witness:
  "classify_file_with_openai (env0\<lparr>llm_invoke := (\<lambda>n p. Inr ''not json'')\<rparr>) world0 ''/tmp/t1/a.asp'' ''hi'' =
     (Inr (JObj [(''file_path'', JStr ''/tmp/t1/a.asp''), (''classification'', JStr ''unknown''),
                 (''reason'', JStr ''JSON parsing error: Expecting value''), (''category'', JStr ''Other''),
                 (''conversion_type'', JStr ''Unknown'')]),
      world0\<lparr>llm_calls := [''/tmp/t1/a.asp''],
        console := [''Classifying file: /tmp/t1/a.asp'', ''JSON Decode Error: Expecting value'']\<rparr>)
   \<and> classify_file_with_openai env_unreachable world0 ''/tmp/t1/a.asp'' ''hi'' =
     (Inl (OtherException ''Connection error''),
      world0\<lparr>llm_calls := [''/tmp/t1/a.asp''], console := [''Classifying file: /tmp/t1/a.asp'']\<rparr>)
   \<and> classify_file_with_openai env_deep world0 ''/tmp/t1/a.asp'' ''hi'' =
     (Inl (OtherException ''maximum recursion depth exceeded''),
      world0\<lparr>llm_calls := [''/tmp/t1/a.asp''], console := [''Classifying file: /tmp/t1/a.asp'']\<rparr>)"
proof -
  have a: "classify_file_with_openai (env0\<lparr>llm_invoke := (\<lambda>n p. Inr ''not json'')\<rparr>) world0 ''/tmp/t1/a.asp'' ''hi'' =
     (Inr (JObj [(''file_path'', JStr ''/tmp/t1/a.asp''), (''classification'', JStr ''unknown''),
                 (''reason'', JStr ''JSON parsing error: Expecting value''), (''category'', JStr ''Other''),
                 (''conversion_type'', JStr ''Unknown'')]),
      world0\<lparr>llm_calls := [''/tmp/t1/a.asp''],
        console := [''Classifying file: /tmp/t1/a.asp'', ''JSON Decode Error: Expecting value'']\<rparr>)"
    using classify_malformed_default [of "env0\<lparr>llm_invoke := (\<lambda>n p. Inr ''not json'')\<rparr>" world0
        "''/tmp/t1/a.asp''" "''hi''"]
    by (simp add: env0_def world0_def parse_response_def)
  have b: "classify_file_with_openai env_unreachable world0 ''/tmp/t1/a.asp'' ''hi'' =
     (Inl (OtherException ''Connection error''),
      world0\<lparr>llm_calls := [''/tmp/t1/a.asp''], console := [''Classifying file: /tmp/t1/a.asp'']\<rparr>)"
    using classify_malformed_default [of env_unreachable world0 "''/tmp/t1/a.asp''" "''hi''"]
    by (simp add: env_unreachable_def env0_def world0_def)
  have c: "classify_file_with_openai env_deep world0 ''/tmp/t1/a.asp'' ''hi'' =
     (Inl (OtherException ''maximum recursion depth exceeded''),
      world0\<lparr>llm_calls := [''/tmp/t1/a.asp''], console := [''Classifying file: /tmp/t1/a.asp'']\<rparr>)"
    using classify_malformed_default [of env_deep world0 "''/tmp/t1/a.asp''" "''hi''"]
    by (simp add: env_deep_def env0_def world0_def parse_response_def)
  from a b c show ?thesis by blast
qed

text \<open>The claim as it stands fails: a call to the service that raises anything but
  \<^verbatim>\<open>JSONDecodeError\<close> leaves \<^verbatim>\<open>classify_file_with_openai\<close> as that exception.\<close>

theorem classify_failure_propagates_counterexample:
  "fst (classify_file_with_openai (env0\<lparr>llm_invoke := (\<lambda>n p. Inl (OtherException ''Connection error''))\<rparr>)
          world0 ''/tmp/t1/a.asp'' ''hi'') = Inl (OtherException ''Connection error'')"
  by code_simp

section \<open>A request without a URL\<close>

text \<open>
  C9. When the body is an object whose \<^verbatim>\<open>githubUrl\<close> is missing or falsy, the endpoint
  raises \<^verbatim>\<open>HTTPException(400, "GitHub URL is required")\<close> and the world is as it was: no
  clone, no call to the service, nothing written, nothing printed.
\<close>

theorem missing_url_is_400:
  assumes "\<not> truthy (dict_get d ''githubUrl'' JNull)"
  shows "process_github env s (JObj d) = (Inl (HTTPException 400 ''GitHub URL is required''), s)"
  using assms by (simp add: process_github_def)

theorem missing_url_is_400_witness:
  "process_github env0 world0 (JObj []) = (Inl (HTTPException 400 ''GitHub URL is required''), world0)
   \<and> process_github env0 world0 (JObj [(''githubUrl'', JStr [])])
       = (Inl (HTTPException 400 ''GitHub URL is required''), world0)"
  using missing_url_is_400 [of "[]" env0 world0]
    missing_url_is_400 [of "[(''githubUrl'', JStr [])]" env0 world0]
  by (simp add: dict_get_def)

section \<open>The analysis of a checked-out project\<close>

text \<open>Reading and classifying leave the disk alone; what a task sends to the service and
  what it adds to the buckets can be read off its file.\<close>

lemma read_file_content_disk [simp]: "disk (snd (read_file_content env s fp)) = disk s"
  by (simp add: read_file_content_def print_def split: sum.splits option.splits)

lemma read_file_content_llm_calls [simp]: "llm_calls (snd (read_file_content env s fp)) = llm_calls s"
  by (simp add: read_file_content_def print_def split: sum.splits option.splits)

lemma read_file_content_fst_cong:
  "disk s = disk s' \<Longrightarrow> fst (read_file_content env s fp) = fst (read_file_content env s' fp)"
  by (simp add: read_file_content_def split: sum.splits option.splits)

lemma classify_disk [simp]: "disk (snd (classify_file_with_openai env s fp c)) = disk s"
  by (simp add: classify_file_with_openai_def llm_chain_invoke_def print_def Let_def
      split: sum.splits exn.splits prod.splits)

lemma classify_llm_calls [simp]:
  "llm_calls (snd (classify_file_with_openai env s fp c)) = llm_calls s @ [classify_prompt env fp c]"
  by (simp add: classify_file_with_openai_def llm_chain_invoke_def print_def Let_def
      split: sum.splits exn.splits prod.splits)

lemma analyze_file_cases:
  assumes "analyze_file env s ps fp = (r, s', ps')"
  shows "ps' = ps \<or>
    (\<exists>content s1 s2 d k c rsn.
       read_file_content env s fp = (Some content, s1) \<and> content \<noteq> [] \<and>
       classify_file_with_openai env s1 fp content = (Inr (JObj d), s2) \<and>
       dict_get d ''category'' (JStr ''Other'') = JStr k \<and> k \<in> set (map fst ps) \<and>
       dict_item d ''classification'' = Inr c \<and> dict_item d ''reason'' = Inr rsn \<and>
       ps' = append_to ps (JStr k)
               \<lparr>fr_file_path = fp, fr_classification = c, fr_reason = rsn,
                fr_conversion_type = dict_get d ''conversion_type'' (JStr ''Unknown''),
                fr_content = content\<rparr>)"
  using assms
  by (auto simp: analyze_file_def contains_key_def Let_def
      split: prod.splits option.splits if_splits sum.splits json.splits bool.splits)

lemma analyze_file_disk: "analyze_file env s ps fp = (r, s', ps') \<Longrightarrow> disk s' = disk s"
  apply (simp add: analyze_file_def Let_def split: prod.splits option.splits if_splits sum.splits json.splits bool.splits)
  apply (auto dest!: arg_cong[where f="\<lambda>x. disk (snd x)"])
  done

lemma analyze_file_llm_calls:
  "analyze_file env s ps fp = (r, s', ps') \<Longrightarrow>
   llm_calls s' = llm_calls s @
     (case fst (read_file_content env s fp) of
        None \<Rightarrow> []
      | Some c \<Rightarrow> if c = [] then [] else [classify_prompt env fp c])"
  apply (simp add: analyze_file_def Let_def split: prod.splits option.splits if_splits sum.splits json.splits bool.splits)
  apply (auto dest!: arg_cong[where f="\<lambda>x. llm_calls (snd x)"] dest: arg_cong[where f="\<lambda>x. llm_calls (snd x)"])
  done

lemma append_to_keys [simp]: "map fst (append_to ps c r) = map fst ps"
  by (induction ps) (auto simp: append_to_def)

lemma append_to_member:
  "(k, rs) \<in> set (append_to ps c r) \<Longrightarrow> x \<in> set rs \<Longrightarrow>
   (\<exists>rs0. (k, rs0) \<in> set ps \<and> x \<in> set rs0) \<or> (c = JStr k \<and> x = r)"
  by (induction ps) (auto simp: append_to_def split: if_splits)

lemma analyze_file_keys: "analyze_file env s ps fp = (r, s', ps') \<Longrightarrow> map fst ps' = map fst ps"
  by (drule analyze_file_cases) auto

lemma run_tasks_keys: "run_tasks env s ps fps = (rs, s', ps') \<Longrightarrow> map fst ps' = map fst ps"
proof (induction fps arbitrary: s ps rs s' ps')
  case Nil
  then show ?case by simp
next
  case (Cons fp fps)
  then show ?case
    by (auto split: prod.splits dest!: analyze_file_keys)
qed

lemma run_tasks_disk: "run_tasks env s ps fps = (rs, s', ps') \<Longrightarrow> disk s' = disk s"
proof (induction fps arbitrary: s ps rs s' ps')
  case Nil
  then show ?case by simp
next
  case (Cons fp fps)
  then show ?case
    by (auto split: prod.splits dest!: analyze_file_disk)
qed

lemma run_tasks_length: "run_tasks env s ps fps = (rs, s', ps') \<Longrightarrow> length rs = length fps"
  by (induction fps arbitrary: s ps rs s' ps') (auto split: prod.splits)

text \<open>The prompts a list of tasks sends, read off the disk.\<close>

lemma run_tasks_llm_calls:
  "run_tasks env s ps fps = (rs, s', ps') \<Longrightarrow>
   llm_calls s' = llm_calls s @
     concat (map (\<lambda>fp. case fst (read_file_content env s fp) of
                          None \<Rightarrow> []
                        | Some c \<Rightarrow> if c = [] then [] else [classify_prompt env fp c]) fps)"
proof (induction fps arbitrary: s ps rs s' ps')
  case Nil
  then show ?case by simp
next
  case (Cons fp fps)
  obtain r s1 ps1 where a: "analyze_file env s ps fp = (r, s1, ps1)"
    by (cases "analyze_file env s ps fp") auto
  obtain rs2 where b: "run_tasks env s1 ps1 fps = (rs2, s', ps')"
    using Cons.prems a by (auto split: prod.splits)
  have d: "disk s1 = disk s" using a by (rule analyze_file_disk)
  have "\<And>fp. fst (read_file_content env s1 fp) = fst (read_file_content env s fp)"
    using d by (rule read_file_content_fst_cong)
  with Cons.IH [OF b] analyze_file_llm_calls [OF a] show ?case by simp
qed

lemma run_tasks_records:
  assumes "run_tasks env s ps fps = (rs, s', ps')" and "(k, recs) \<in> set ps'" and "x \<in> set recs"
  shows "(\<exists>recs0. (k, recs0) \<in> set ps \<and> x \<in> set recs0) \<or>
    (\<exists>s0 s1 s2 d.
       disk s0 = disk s \<and> read_file_content env s0 (fr_file_path x) = (Some (fr_content x), s1) \<and>
       fr_content x \<noteq> [] \<and> fr_file_path x \<in> set fps \<and>
       classify_file_with_openai env s1 (fr_file_path x) (fr_content x) = (Inr (JObj d), s2) \<and>
       dict_get d ''category'' (JStr ''Other'') = JStr k)"
  using assms
proof (induction fps arbitrary: s ps rs s' ps')
  case Nil
  then show ?case by auto
next
  case (Cons fp fps)
  obtain r s1 ps1 where a: "analyze_file env s ps fp = (r, s1, ps1)"
    by (cases "analyze_file env s ps fp") auto
  obtain rs2 where b: "run_tasks env s1 ps1 fps = (rs2, s', ps')"
    using Cons.prems(1) a by (auto split: prod.splits)
  have d: "disk s1 = disk s" using a by (rule analyze_file_disk)
  from Cons.IH [OF b Cons.prems(2,3)]
  consider (old) recs0 where "(k, recs0) \<in> set ps1" "x \<in> set recs0"
    | (new) s0 s1' s2 d where "disk s0 = disk s1"
        "read_file_content env s0 (fr_file_path x) = (Some (fr_content x), s1')"
        "fr_content x \<noteq> []" "fr_file_path x \<in> set fps"
        "classify_file_with_openai env s1' (fr_file_path x) (fr_content x) = (Inr (JObj d), s2)"
        "dict_get d ''category'' (JStr ''Other'') = JStr k"
    by blast
  then show ?case
  proof cases
    case old
    from analyze_file_cases [OF a] show ?thesis
    proof
      assume "ps1 = ps"
      with old show ?thesis by blast
    next
      assume "\<exists>content s1' s2 d k c rsn.
       read_file_content env s fp = (Some content, s1') \<and> content \<noteq> [] \<and>
       classify_file_with_openai env s1' fp content = (Inr (JObj d), s2) \<and>
       dict_get d ''category'' (JStr ''Other'') = JStr k \<and> k \<in> set (map fst ps) \<and>
       dict_item d ''classification'' = Inr c \<and> dict_item d ''reason'' = Inr rsn \<and>
       ps1 = append_to ps (JStr k)
               \<lparr>fr_file_path = fp, fr_classification = c, fr_reason = rsn,
                fr_conversion_type = dict_get d ''conversion_type'' (JStr ''Unknown''),
                fr_content = content\<rparr>"
      then obtain content s1' s2 d k' c rsn where
        h: "read_file_content env s fp = (Some content, s1')" "content \<noteq> []"
           "classify_file_with_openai env s1' fp content = (Inr (JObj d), s2)"
           "dict_get d ''category'' (JStr ''Other'') = JStr k'"
           "ps1 = append_to ps (JStr k')
               \<lparr>fr_file_path = fp, fr_classification = c, fr_reason = rsn,
                fr_conversion_type = dict_get d ''conversion_type'' (JStr ''Unknown''),
                fr_content = content\<rparr>"
        by blast
      from append_to_member [OF old(1) [unfolded h(5)] old(2)]
      show ?thesis
      proof
        assume "\<exists>rs0. (k, rs0) \<in> set ps \<and> x \<in> set rs0"
        then show ?thesis by blast
      next
        assume e: "JStr k' = JStr k \<and> x = \<lparr>fr_file_path = fp, fr_classification = c, fr_reason = rsn,
                fr_conversion_type = dict_get d ''conversion_type'' (JStr ''Unknown''),
                fr_content = content\<rparr>"
        then have "fr_file_path x = fp" "fr_content x = content" "k' = k" by auto
        with h show ?thesis by (intro disjI2 exI [of _ s] exI [of _ s1'] exI [of _ s2] exI [of _ d]) auto
      qed
    qed
  next
    case new
    with d show ?thesis by (intro disjI2 exI [of _ s0] exI [of _ s1'] exI [of _ s2] exI [of _ d]) auto
  qed
qed

lemma collect_results_llm_calls [simp]: "llm_calls (collect_results s rs) = llm_calls s"
  by (induction s rs rule: collect_results.induct) (auto simp: print_def)

lemma collect_results_console:
  "console (collect_results s rs) = console s @ [''Error processing file: '' @ exn_str e. Inl e \<leftarrow> rs]"
  by (induction s rs rule: collect_results.induct) (auto simp: print_def)

text \<open>
  C5, as amended. The analysis submits one task for every file of the walk whose lower-cased
  name ends in one of the six listed extensions, the walk not entering \<^verbatim>\<open>.git\<close>. A task
  sends at most one classification request: exactly one when the file's content can be
  read and is not empty, none otherwise. Every submitted task has an outcome, whatever
  the others raised: an exception of one task is caught (and printed) when its future is
  collected. The tasks are run here in the order of submission; what the pool's threads
  interleave is not modelled.
\<close>

theorem one_request_per_readable_source_file:
  "llm_calls (snd (analyze_asp_project env s project_path)) =
     llm_calls s @
       concat (map (\<lambda>fp. case fst (read_file_content env s fp) of
                            None \<Rightarrow> []
                          | Some c \<Rightarrow> if c = [] then [] else [classify_prompt env fp c])
                   (submitted_files (disk s) project_path))
   \<and> length (fst (run_tasks env s empty_structure (submitted_files (disk s) project_path)))
       = length (submitted_files (disk s) project_path)
   \<and> console (snd (analyze_asp_project env s project_path))
       = console (fst (snd (run_tasks env s empty_structure (submitted_files (disk s) project_path))))
         @ [''Error processing file: '' @ exn_str e.
              Inl e \<leftarrow> fst (run_tasks env s empty_structure (submitted_files (disk s) project_path))]"
proof -
  obtain rs s1 ps where r: "run_tasks env s empty_structure (submitted_files (disk s) project_path) = (rs, s1, ps)"
    by (cases "run_tasks env s empty_structure (submitted_files (disk s) project_path)") auto
  show ?thesis
    using run_tasks_llm_calls [OF r] run_tasks_length [OF r]
    by (simp add: analyze_asp_project_def r collect_results_console)
qed

text \<open>The claim as it stands fails: the walk of this repository discovers three files
  outside \<^verbatim>\<open>.git\<close>, two of them are submitted and one classification request is issued:
  \<^verbatim>\<open>README.md\<close> has no listed extension and \<^verbatim>\<open>empty.asp\<close> is empty.\<close>

theorem not_every_file_classified_counterexample:
  "concat (map (\<lambda>(rt, dirs, files). files) (os_walk (disk world_repo) ''/repo'' (\<lambda>d. d = ''.git'')))
     = [''a.asp'', ''empty.asp'', ''README.md'']
   \<and> submitted_files (disk world_repo) ''/repo'' = [''/repo/a.asp'', ''/repo/empty.asp'']
   \<and> llm_calls (snd (analyze_asp_project env_views world_repo ''/repo'')) = [''/repo/a.asp'']"
  by code_simp

text \<open>
  C8, as amended. \<^verbatim>\<open>analyze_asp_project\<close> returns a dict with exactly the keys \<^verbatim>\<open>Views\<close>,
  \<^verbatim>\<open>Controllers\<close>, \<^verbatim>\<open>Models\<close>, \<^verbatim>\<open>Configurations\<close> and \<^verbatim>\<open>Other\<close>, each mapped to a list,
  whatever the input. Every record of a bucket comes from a classification whose
  \<^verbatim>\<open>category\<close> is the bucket's key. A task whose classification has a category that is
  none of the keys leaves every bucket as it was, so that its file is in none: when the
  category can be hashed (a string, a number, a boolean, \<^verbatim>\<open>null\<close>) the task returns
  normally and prints nothing; when it is a list or a dict the membership test raises
  \<^verbatim>\<open>TypeError\<close>, and the loop over the futures prints \<^verbatim>\<open>Error processing file: \<close> and the
  message of every exception a task has raised.
\<close>

theorem analysis_has_five_buckets:
  "map fst (fst (analyze_asp_project env s project_path))
     = [''Views'', ''Controllers'', ''Models'', ''Configurations'', ''Other'']
   \<and> (\<forall>k recs x. (k, recs) \<in> set (fst (analyze_asp_project env s project_path)) \<longrightarrow> x \<in> set recs \<longrightarrow>
        (\<exists>s1 s2 d. classify_file_with_openai env s1 (fr_file_path x) (fr_content x) = (Inr (JObj d), s2)
                  \<and> dict_get d ''category'' (JStr ''Other'') = JStr k))
   \<and> (read_file_content env s0 file_path = (Some content, s1) \<longrightarrow> content \<noteq> [] \<longrightarrow>
      classify_file_with_openai env s1 file_path content = (Inr (JObj d), s2) \<longrightarrow>
        ((\<forall>xs. dict_get d ''category'' (JStr ''Other'') \<noteq> JArr xs) \<longrightarrow>
         (\<forall>kvs. dict_get d ''category'' (JStr ''Other'') \<noteq> JObj kvs) \<longrightarrow>
         dict_get d ''category'' (JStr ''Other'') \<notin> JStr ` set (map fst ps) \<longrightarrow>
           analyze_file env s0 ps file_path = (Inr (), s2, ps))
      \<and> ((\<exists>xs. dict_get d ''category'' (JStr ''Other'') = JArr xs)
           \<or> (\<exists>kvs. dict_get d ''category'' (JStr ''Other'') = JObj kvs) \<longrightarrow>
           (\<exists>m. analyze_file env s0 ps file_path = (Inl (TypeError m), s2, ps))))
   \<and> console (snd (analyze_asp_project env s project_path))
       = console (fst (snd (run_tasks env s empty_structure (submitted_files (disk s) project_path))))
         @ [''Error processing file: '' @ exn_str e.
              Inl e \<leftarrow> fst (run_tasks env s empty_structure (submitted_files (disk s) project_path))]"
proof -
  obtain rs s1' ps' where r: "run_tasks env s empty_structure (submitted_files (disk s) project_path) = (rs, s1', ps')"
    by (cases "run_tasks env s empty_structure (submitted_files (disk s) project_path)") auto
  have res: "fst (analyze_asp_project env s project_path) = ps'"
    by (simp add: analyze_asp_project_def r)
  have a: "map fst ps' = [''Views'', ''Controllers'', ''Models'', ''Configurations'', ''Other'']"
    using run_tasks_keys [OF r] by (simp add: empty_structure_def)
  have b: "\<exists>s1 s2 d. classify_file_with_openai env s1 (fr_file_path x) (fr_content x) = (Inr (JObj d), s2)
                  \<and> dict_get d ''category'' (JStr ''Other'') = JStr k"
    if "(k, recs) \<in> set ps'" "x \<in> set recs" for k recs x
    using run_tasks_records [OF r that] by (auto simp: empty_structure_def)
  have c: "analyze_file env s0 ps file_path = (Inr (), s2, ps)"
    if "read_file_content env s0 file_path = (Some content, s1)" "content \<noteq> []"
       "classify_file_with_openai env s1 file_path content = (Inr (JObj d), s2)"
       "\<forall>xs. dict_get d ''category'' (JStr ''Other'') \<noteq> JArr xs"
       "\<forall>kvs. dict_get d ''category'' (JStr ''Other'') \<noteq> JObj kvs"
       "dict_get d ''category'' (JStr ''Other'') \<notin> JStr ` set (map fst ps)"
    using that
    by (auto simp: analyze_file_def contains_key_def Let_def image_iff split: json.splits bool.splits)
  have d: "\<exists>m. analyze_file env s0 ps file_path = (Inl (TypeError m), s2, ps)"
    if "read_file_content env s0 file_path = (Some content, s1)" "content \<noteq> []"
       "classify_file_with_openai env s1 file_path content = (Inr (JObj d), s2)"
       "(\<exists>xs. dict_get d ''category'' (JStr ''Other'') = JArr xs)
           \<or> (\<exists>kvs. dict_get d ''category'' (JStr ''Other'') = JObj kvs)"
    using that by (auto simp: analyze_file_def contains_key_def Let_def)
  have e: "console (snd (analyze_asp_project env s project_path))
       = console (fst (snd (run_tasks env s empty_structure (submitted_files (disk s) project_path))))
         @ [''Error processing file: '' @ exn_str e.
              Inl e \<leftarrow> fst (run_tasks env s empty_structure (submitted_files (disk s) project_path))]"
    by (simp add: analyze_asp_project_def r collect_results_console)
  show ?thesis
    unfolding res using a b c d e by blast
qed

theorem analysis_has_five_buckets_witness:
  "map fst (fst (analyze_asp_project env_views world_repo ''/repo''))
     = [''Views'', ''Controllers'', ''Models'', ''Configurations'', ''Other'']
   \<and> fst (analyze_file env_odd world_repo empty_structure ''/repo/a.asp'') = Inr ()
   \<and> snd (snd (analyze_file env_odd world_repo empty_structure ''/repo/a.asp'')) = empty_structure
   \<and> (\<exists>m. fst (analyze_file env_list world_repo empty_structure ''/repo/a.asp'') = Inl (TypeError m))
   \<and> snd (snd (analyze_file env_list world_repo empty_structure ''/repo/a.asp'')) = empty_structure"
proof -
  have r: "read_file_content env_odd world_repo ''/repo/a.asp'' = (Some ''hi'', world_repo)"
    by code_simp
  have c: "classify_file_with_openai env_odd world_repo ''/repo/a.asp'' ''hi'' =
      (Inr (JObj [(''classification'', JStr ''conversion_needed''), (''reason'', JStr ''page''),
                  (''category'', JStr ''Pages'')]),
       snd (classify_file_with_openai env_odd world_repo ''/repo/a.asp'' ''hi''))"
    by code_simp
  have k: "dict_get [(''classification'', JStr ''conversion_needed''), (''reason'', JStr ''page''),
                  (''category'', JStr ''Pages'')] ''category'' (JStr ''Other'') = JStr ''Pages''"
    by (simp add: dict_get_def)
  have k': "JStr ''Pages'' \<notin> JStr ` set (map fst empty_structure)"
    by (simp add: empty_structure_def)
  have r2: "read_file_content env_list world_repo ''/repo/a.asp'' = (Some ''hi'', world_repo)"
    by code_simp
  have c2: "classify_file_with_openai env_list world_repo ''/repo/a.asp'' ''hi'' =
      (Inr (JObj [(''classification'', JStr ''conversion_needed''), (''reason'', JStr ''page''),
                  (''category'', JArr [JStr ''Views''])]),
       snd (classify_file_with_openai env_list world_repo ''/repo/a.asp'' ''hi''))"
    by code_simp
  have k2: "dict_get [(''classification'', JStr ''conversion_needed''), (''reason'', JStr ''page''),
                  (''category'', JArr [JStr ''Views''])] ''category'' (JStr ''Other'') = JArr [JStr ''Views'']"
    by (simp add: dict_get_def)
  have ne: "''hi'' \<noteq> []" by simp
  note t1 = analysis_has_five_buckets [where env = env_views and s = world_repo and project_path = "''/repo''"]
  note t2 = analysis_has_five_buckets [where env = env_odd and ?s0.0 = world_repo and file_path = "''/repo/a.asp''"
        and content = "''hi''" and ?s1.0 = world_repo and ps = empty_structure,
        THEN conjunct2, THEN conjunct2, THEN conjunct1, rule_format, OF r ne c]
  note t3 = analysis_has_five_buckets [where env = env_list and ?s0.0 = world_repo and file_path = "''/repo/a.asp''"
        and content = "''hi''" and ?s1.0 = world_repo and ps = empty_structure,
        THEN conjunct2, THEN conjunct2, THEN conjunct1, rule_format, OF r2 ne c2]
  have o: "analyze_file env_odd world_repo empty_structure ''/repo/a.asp''
           = (Inr (), snd (classify_file_with_openai env_odd world_repo ''/repo/a.asp'' ''hi''), empty_structure)"
    using t2 k k' by simp
  have l: "\<exists>m. analyze_file env_list world_repo empty_structure ''/repo/a.asp''
           = (Inl (TypeError m), snd (classify_file_with_openai env_list world_repo ''/repo/a.asp'' ''hi''), empty_structure)"
    using t3 k2 by simp
  from t1 o l show ?thesis by auto
qed

text \<open>The claim as it stands fails: a category that is a list is not dropped silently. The
  file is in no bucket, and the console has the line of the \<^verbatim>\<open>TypeError\<close>.\<close>

theorem unhashable_category_logged_counterexample:
  "fst (analyze_asp_project env_list world_repo ''/repo'') = empty_structure
   \<and> console (snd (analyze_asp_project env_list world_repo ''/repo''))
     = [''Classifying file: /repo/a.asp'',
        ''Error processing file: unhashable type: '' @ [char_of (39 :: nat)] @ ''list'' @ [char_of (39 :: nat)]]"
  by code_simp



section \<open>The endpoint\<close>

text \<open>
  C3. Once the URL is there, every exception the \<^verbatim>\<open>try\<close> body raises is caught by the
  endpoint: it prints \<^verbatim>\<open>Error processing GitHub URL: \<close> and the message, and raises
  \<^verbatim>\<open>HTTPException\<close> with status 500 and the message alone as detail. No other status
  comes out of such a failure.
\<close>

theorem failure_is_500:
  assumes "truthy (dict_get d ''githubUrl'' JNull)"
      and "fst (process_body env s (dict_get d ''githubUrl'' JNull)) = Inl e"
  shows "process_github env s (JObj d) =
     (Inl (HTTPException 500 (exn_str e)),
      (snd (process_body env s (dict_get d ''githubUrl'' JNull)))
        \<lparr>console := console (snd (process_body env s (dict_get d ''githubUrl'' JNull)))
                      @ [''Error processing GitHub URL: '' @ exn_str e]\<rparr>)"
  using assms by (auto simp: process_github_def print_def split: prod.splits sum.splits)

theorem failure_is_500_witness:
  "fst (process_github env_noclone world0 data0) = Inl (HTTPException 500 ''500: Failed to clone repository'')
   \<and> last (console (snd (process_github env_noclone world0 data0)))
       = ''Error processing GitHub URL: 500: Failed to clone repository''"
proof -
  have h1: "truthy (dict_get [(''githubUrl'', JStr ''https://github.com/u/shop.git'')] ''githubUrl'' JNull)"
    by code_simp
  have h2: "fst (process_body env_noclone world0
               (dict_get [(''githubUrl'', JStr ''https://github.com/u/shop.git'')] ''githubUrl'' JNull))
            = Inl (HTTPException 500 ''Failed to clone repository'')"
    by code_simp
  have h3: "exn_str (HTTPException 500 ''Failed to clone repository'') = ''500: Failed to clone repository''"
    by code_simp
  show ?thesis
    unfolding data0_def failure_is_500 [OF h1 h2] h3 by simp
qed

text \<open>The stages of a request that succeeds, from the body of the request to the state
  it leaves.\<close>

lemma build_response_stages:
  assumes "build_response env s clone name mvc = (Inr r, s')"
  shows "\<exists>items out s1 fs2 fs3 s4 fs5.
      mvc = JObj items
    \<and> mkdtemp env s = (Inr out, s1)
    \<and> os_makedirs (disk s1) (os_path_join out name) = (Inr (), fs2)
    \<and> write_project_files env fs2 (os_path_join out name) items = (Inr (), fs3)
    \<and> zip_tree fs3 (os_path_join out name) = Inr (body r)
    \<and> save_zip_to_downloads env (s1\<lparr>disk := fs3\<rparr>) (os_path_join out name) (name @ ''.zip'') = (Inr (), s4)
    \<and> clean_up (disk s4) clone out = Inr fs5
    \<and> s' = s4\<lparr>disk := fs5\<rparr>
    \<and> media_type r = ''application/zip''
    \<and> headers r = [(''Content-Disposition'', ''attachment; filename='' @ name @ ''_mvc_project.zip'')]"
  using assms
  by (auto simp: build_response_def Let_def split: prod.splits sum.splits json.splits)

lemma clone_zip_path:
  assumes "clone_and_zip_repo env s u = (Some (zp, clone), s1)"
  shows "zp \<noteq> []"
proof -
  have "os_path_join (tempdir env) ''cloned_repo.zip'' \<noteq> []"
    by (simp add: os_path_join_def)
  with assms show ?thesis
    by (auto simp: clone_and_zip_repo_def clone_and_zip_body_def Let_def
        split: prod.splits sum.splits)
qed

lemma clone_analyze_generate_stages:
  assumes "clone_and_zip_repo env s (JStr url) = (Some (zp, clone), s1)"
      and "analyze_asp_project env s1 clone = (ps, s2)"
  shows "clone_analyze_generate env s (JStr url) =
     (case generate_mvc_with_openai env s2 ps (remove_dotgit (last (split_sep url))) of
        (Inl e, s3) \<Rightarrow> (Inl e, s3)
      | (Inr mvc, s3) \<Rightarrow> (Inr (clone, remove_dotgit (last (split_sep url)), mvc), s3))"
  using assms clone_zip_path [OF assms(1)]
  by (simp add: clone_analyze_generate_def Let_def)

lemma process_github_stages:
  assumes "fst (process_github env s data) = Inr r"
  shows "\<exists>d url zp clone s1 ps s2 mvc s3.
      data = JObj d \<and> dict_get d ''githubUrl'' JNull = JStr url \<and> url \<noteq> []
    \<and> clone_and_zip_repo env s (JStr url) = (Some (zp, clone), s1)
    \<and> analyze_asp_project env s1 clone = (ps, s2)
    \<and> generate_mvc_with_openai env s2 ps (remove_dotgit (last (split_sep url))) = (Inr mvc, s3)
    \<and> clone_analyze_generate env s (JStr url) = (Inr (clone, remove_dotgit (last (split_sep url)), mvc), s3)
    \<and> build_response env s3 clone (remove_dotgit (last (split_sep url))) mvc
        = (Inr r, snd (process_github env s data))"
proof -
  from assms obtain d where d: "data = JObj d"
    by (cases data) (auto simp: process_github_def)
  let ?u = "dict_get d ''githubUrl'' JNull"
  from assms d have t: "truthy ?u"
    by (auto simp: process_github_def Let_def split: if_splits)
  obtain s' where pb: "process_body env s ?u = (Inr r, s')" and sn: "snd (process_github env s data) = s'"
    using assms d t
    by (cases "process_body env s ?u") (auto simp: process_github_def Let_def split: sum.splits)
  from pb obtain clone name mvc s3 where g: "clone_analyze_generate env s ?u = (Inr (clone, name, mvc), s3)"
    and b: "build_response env s3 clone name mvc = (Inr r, s')"
    by (auto simp: process_body_def split: prod.splits sum.splits)
  from g obtain url where u: "?u = JStr url"
    by (cases ?u)
       (auto simp: clone_analyze_generate_def Let_def split: prod.splits option.splits if_splits sum.splits)
  from t u have ne: "url \<noteq> []" by simp
  from g u obtain zp s1 where c: "clone_and_zip_repo env s (JStr url) = (Some (zp, clone), s1)"
    by (auto simp: clone_analyze_generate_def Let_def split: prod.splits option.splits if_splits sum.splits)
  obtain ps s2 where a: "analyze_asp_project env s1 clone = (ps, s2)"
    by (cases "analyze_asp_project env s1 clone")
  from g [unfolded u clone_analyze_generate_stages [OF c a]]
  have gen: "generate_mvc_with_openai env s2 ps (remove_dotgit (last (split_sep url))) = (Inr mvc, s3)"
    and n: "name = remove_dotgit (last (split_sep url))"
    by (auto split: prod.splits sum.splits)
  show ?thesis
    using d u ne c a gen g [unfolded u n] b [unfolded n] unfolding sn by blast
qed

text \<open>
  C6, as amended. Beside the four routes that \<^verbatim>\<open>FastAPI()\<close> serves by default (the OpenAPI
  schema and the documentation pages), the application has one route, \<^verbatim>\<open>POST
  /process-github\<close>. A request that succeeds had a JSON object as body whose \<^verbatim>\<open>githubUrl\<close>
  is a non-empty string, and its response carries the generated project: the body is the
  zip archive of the project directory, taken when the mapping that the generation step
  produced had been written there; the media type is \<^verbatim>\<open>application/zip\<close> and the header
  is \<^verbatim>\<open>Content-Disposition: attachment; filename=<project>_mvc_project.zip\<close>.
\<close>

theorem success_is_zip_attachment:
  assumes "fst (process_github env s data) = Inr r"
  shows "[rt \<leftarrow> app_routes. rt \<notin> set fastapi_routes] = [([''POST''], ''/process-github'')]
     \<and> (\<exists>d url clone items s3 out s4 fs5 fs6.
          data = JObj d \<and> map_of d ''githubUrl'' = Some (JStr url) \<and> url \<noteq> []
        \<and> clone_analyze_generate env s (JStr url)
            = (Inr (clone, remove_dotgit (last (split_sep url)), JObj items), s3)
        \<and> mkdtemp env s3 = (Inr out, s4)
        \<and> os_makedirs (disk s4) (os_path_join out (remove_dotgit (last (split_sep url)))) = (Inr (), fs5)
        \<and> write_project_files env fs5 (os_path_join out (remove_dotgit (last (split_sep url)))) items
            = (Inr (), fs6)
        \<and> zip_tree fs6 (os_path_join out (remove_dotgit (last (split_sep url)))) = Inr (body r)
        \<and> media_type r = ''application/zip''
        \<and> headers r = [(''Content-Disposition'',
              ''attachment; filename='' @ remove_dotgit (last (split_sep url)) @ ''_mvc_project.zip'')])"
proof -
  have rts: "[rt \<leftarrow> app_routes. rt \<notin> set fastapi_routes] = [([''POST''], ''/process-github'')]"
    by (simp add: app_routes_def fastapi_routes_def)
  from process_github_stages [OF assms] obtain d url clone mvc s3 where
    d: "data = JObj d" and u: "dict_get d ''githubUrl'' JNull = JStr url" and ne: "url \<noteq> []"
    and g: "clone_analyze_generate env s (JStr url) = (Inr (clone, remove_dotgit (last (split_sep url)), mvc), s3)"
    and b: "build_response env s3 clone (remove_dotgit (last (split_sep url))) mvc
        = (Inr r, snd (process_github env s data))"
    by blast
  from u have m: "map_of d ''githubUrl'' = Some (JStr url)"
    by (auto simp: dict_get_def split: option.splits)
  from build_response_stages [OF b] obtain items out s4 fs5 fs6 where
    "mvc = JObj items" "mkdtemp env s3 = (Inr out, s4)"
    "os_makedirs (disk s4) (os_path_join out (remove_dotgit (last (split_sep url)))) = (Inr (), fs5)"
    "write_project_files env fs5 (os_path_join out (remove_dotgit (last (split_sep url)))) items = (Inr (), fs6)"
    "zip_tree fs6 (os_path_join out (remove_dotgit (last (split_sep url)))) = Inr (body r)"
    "media_type r = ''application/zip''"
    "headers r = [(''Content-Disposition'',
              ''attachment; filename='' @ remove_dotgit (last (split_sep url)) @ ''_mvc_project.zip'')]"
    by blast
  with rts d m ne g show ?thesis by blast
qed

theorem success_is_zip_attachment_witness:
  "\<exists>r. fst (process_github env_project world0 data0) = Inr r
     \<and> body r = [(''Program.cs'', ''y''), (''Views/a.cshtml'', ''x'')]
     \<and> [rt \<leftarrow> app_routes. rt \<notin> set fastapi_routes] = [([''POST''], ''/process-github'')]
     \<and> (\<exists>d url clone items s3 out s4 fs5 fs6.
          data0 = JObj d \<and> map_of d ''githubUrl'' = Some (JStr url) \<and> url \<noteq> []
        \<and> clone_analyze_generate env_project world0 (JStr url)
            = (Inr (clone, remove_dotgit (last (split_sep url)), JObj items), s3)
        \<and> mkdtemp env_project s3 = (Inr out, s4)
        \<and> os_makedirs (disk s4) (os_path_join out (remove_dotgit (last (split_sep url)))) = (Inr (), fs5)
        \<and> write_project_files env_project fs5 (os_path_join out (remove_dotgit (last (split_sep url)))) items
            = (Inr (), fs6)
        \<and> zip_tree fs6 (os_path_join out (remove_dotgit (last (split_sep url)))) = Inr (body r)
        \<and> media_type r = ''application/zip''
        \<and> headers r = [(''Content-Disposition'',
              ''attachment; filename='' @ remove_dotgit (last (split_sep url)) @ ''_mvc_project.zip'')])"
proof -
  let ?r = "\<lparr>body = [(''Program.cs'', ''y''), (''Views/a.cshtml'', ''x'')], media_type = ''application/zip'',
         headers = [(''Content-Disposition'', ''attachment; filename=shop_mvc_project.zip'')]\<rparr>"
  have h: "fst (process_github env_project world0 data0) = Inr ?r"
    by code_simp
  have b: "body ?r = [(''Program.cs'', ''y''), (''Views/a.cshtml'', ''x'')]" by simp
  from h b success_is_zip_attachment [OF h] show ?thesis by blast
qed

text \<open>The claim as it stands fails: the application serves five routes, not one.\<close>

theorem documentation_routes_counterexample:
  "app_routes \<noteq> [([''POST''], ''/process-github'')]
   \<and> map snd app_routes = [''/openapi.json'', ''/docs'', ''/docs/oauth2-redirect'', ''/redoc'', ''/process-github'']"
  by (simp add: app_routes_def fastapi_routes_def)

section \<open>Path strings\<close>

text \<open>Splitting and joining at the separator are inverse to each other, and the directory
  part of a joined path is the join of all components but the last.\<close>

lemma split_sep_nonempty [simp]: "split_sep s \<noteq> []"
  by (induction s) (auto split: list.splits)

lemma split_sep_no_slash: "c \<in> set (split_sep s) \<Longrightarrow> CHR ''/'' \<notin> set c"
  by (induction s arbitrary: c) (auto split: list.splits if_splits)

lemma split_sep_plain: "CHR ''/'' \<notin> set w \<Longrightarrow> split_sep w = [w]"
  by (induction w) auto

lemma split_sep_append_slash: "split_sep (a @ CHR ''/'' # b) = split_sep a @ split_sep b"
  by (induction a) (auto split: list.splits)

lemma join_sep_Cons: "ws \<noteq> [] \<Longrightarrow> join_sep (w # ws) = w @ CHR ''/'' # join_sep ws"
  by (cases ws) auto

lemma join_split [simp]: "join_sep (split_sep s) = s"
proof (induction s)
  case Nil
  then show ?case by simp
next
  case (Cons c s)
  show ?case
  proof (cases "c = CHR ''/''")
    case True
    with Cons show ?thesis by (simp add: join_sep_Cons)
  next
    case False
    obtain w ws where s: "split_sep s = w # ws" by (cases "split_sep s") auto
    with Cons False show ?thesis by (cases ws) auto
  qed
qed

lemma split_join: "xs \<noteq> [] \<Longrightarrow> \<forall>c\<in>set xs. CHR ''/'' \<notin> set c \<Longrightarrow> split_sep (join_sep xs) = xs"
proof (induction xs rule: join_sep.induct)
  case 1
  then show ?case by simp
next
  case (2 w)
  then show ?case by (simp add: split_sep_plain)
next
  case (3 w v ws)
  then show ?case by (simp add: split_sep_append_slash split_sep_plain)
qed

lemma join_sep_snoc: "xs \<noteq> [] \<Longrightarrow> join_sep (xs @ [x]) = join_sep xs @ CHR ''/'' # x"
  by (induction xs rule: join_sep.induct) auto

lemma dirname_join:
  assumes "xs \<noteq> []" and "CHR ''/'' \<notin> set x" and "last xs \<noteq> []" and "CHR ''/'' \<notin> set (last xs)"
  shows "os_path_dirname (join_sep (xs @ [x])) = join_sep xs"
proof -
  let ?J = "join_sep xs"
  have J: "?J \<noteq> [] \<and> last ?J \<noteq> CHR ''/''"
    using assms(1,3,4)
  proof (induction xs rule: join_sep.induct)
    case 1
    then show ?case by simp
  next
    case (2 w)
    then show ?case by (auto dest: last_in_set)
  next
    case (3 w v ws)
    then show ?case by auto
  qed
  have d1: "dropWhile (\<lambda>c. c \<noteq> CHR ''/'') (rev x @ CHR ''/'' # rev ?J) = CHR ''/'' # rev ?J"
    using assms(2) by (subst dropWhile_append2) auto
  have h: "rev (dropWhile (\<lambda>c. c \<noteq> CHR ''/'') (rev (join_sep (xs @ [x])))) = ?J @ ''/''"
    using assms(1) d1 by (simp add: join_sep_snoc)
  have ne: "?J @ ''/'' \<noteq> replicate (length (?J @ ''/'')) CHR ''/''"
  proof
    assume "?J @ ''/'' = replicate (length (?J @ ''/'')) CHR ''/''"
    then have "set (?J @ ''/'') \<subseteq> {CHR ''/''}" by (metis set_replicate_conv_if subset_refl empty_subsetI)
    with J show False by (auto dest: last_in_set)
  qed
  have d2: "dropWhile (\<lambda>c. c = CHR ''/'') (rev (?J @ ''/'')) = rev ?J"
    using J by (cases "rev ?J") (auto simp: last_rev)
  show ?thesis
    unfolding os_path_dirname_def h Let_def using ne d2 by simp
qed

section \<open>Walking and making directories\<close>

lemma dirs_kept_refl [simp]: "dirs_kept fs fs"
  by (simp add: dirs_kept_def)

lemma dirs_kept_trans: "dirs_kept a b \<Longrightarrow> dirs_kept b c \<Longrightarrow> dirs_kept a c"
  by (simp add: dirs_kept_def)

lemma step_clean [simp]: "clean_name c \<Longrightarrow> step cur c = cur @ [c]"
  by (auto simp: step_def clean_name_def)

lemma foldl_step_clean: "list_all clean_name cs \<Longrightarrow> foldl step cur cs = cur @ cs"
  by (induction cs arbitrary: cur) auto

lemma walk_to_result: "walk_to fs cur cs = Inr p \<Longrightarrow> p = foldl step cur cs"
  by (induction cs arbitrary: cur) (auto split: option.splits node.splits)

lemma walk_to_append:
  "walk_to fs cur (xs @ ys) = (case walk_to fs cur xs of Inl e \<Rightarrow> Inl e | Inr p \<Rightarrow> walk_to fs p ys)"
  by (induction xs arbitrary: cur) (auto split: option.splits node.splits)

lemma walk_to_mono: "dirs_kept fs fs' \<Longrightarrow> walk_to fs cur cs = Inr p \<Longrightarrow> walk_to fs' cur cs = Inr p"
  by (induction cs arbitrary: cur) (auto simp: dirs_kept_def split: option.splits node.splits)

lemma resolve_mono: "dirs_kept fs fs' \<Longrightarrow> resolve fs s = Inr p \<Longrightarrow> resolve fs' s = Inr p"
  unfolding resolve_def by (rule walk_to_mono)

lemma walk_to_clean:
  "list_all clean_name cs \<Longrightarrow> (\<forall>p. strict_prefix p cs \<longrightarrow> lookup fs (cur @ p) = Some Dir) \<Longrightarrow>
   walk_to fs cur cs = Inr (cur @ cs)"
proof (induction cs arbitrary: cur)
  case Nil
  then show ?case by simp
next
  case (Cons c cs)
  have "lookup fs cur = Some Dir" using Cons.prems(2) [rule_format, of "[]"] by simp
  moreover have "walk_to fs (cur @ [c]) cs = Inr ((cur @ [c]) @ cs)"
  proof (rule Cons.IH)
    show "list_all clean_name cs" using Cons.prems(1) by simp
    show "\<forall>p. strict_prefix p cs \<longrightarrow> lookup fs ((cur @ [c]) @ p) = Some Dir"
      using Cons.prems(2) [rule_format, of "c # p" for p] by auto
  qed
  ultimately show ?case using Cons.prems(1) by simp
qed

text \<open>Lookup after the table operations.\<close>

lemma lookup_snoc:
  "lookup fs p = None \<Longrightarrow> lookup (fs @ [(p, n)]) q = (if q = p then Some n else lookup fs q)"
  by (auto simp: lookup_def map_add_def split: if_splits option.splits)

lemma lookup_update:
  "p \<noteq> [] \<Longrightarrow> lookup (AList.update p n fs) q = (if q = p then Some n else lookup fs q)"
  by (auto simp: lookup_def update_conv')

lemma lookup_None_nonempty: "lookup fs p = None \<Longrightarrow> p \<noteq> []"
  by (auto simp: lookup_def)

lemma lookup_Some_set: "lookup fs p = Some n \<Longrightarrow> p \<noteq> [] \<Longrightarrow> (p, n) \<in> set fs"
  by (auto simp: lookup_def dest: map_of_SomeD)

lemma set_lookup: "distinct (map fst fs) \<Longrightarrow> (p, n) \<in> set fs \<Longrightarrow> p \<noteq> [] \<Longrightarrow> lookup fs p = Some n"
  by (auto simp: lookup_def)

lemma ensure_dir_lookup:
  assumes "ensure_dir fs p = Inr fs'"
  shows "lookup fs' q = (if q = p then Some Dir else lookup fs q)"
  using assms by (auto simp: ensure_dir_def lookup_snoc split: option.splits node.splits)

lemma ensure_dir_distinct:
  "ensure_dir fs p = Inr fs' \<Longrightarrow> distinct (map fst fs) \<Longrightarrow> distinct (map fst fs')"
  by (auto simp: ensure_dir_def lookup_def split: option.splits node.splits if_splits dest!: map_of_eq_None_iff[THEN iffD1])

lemma makedirs_from_lookup:
  assumes "makedirs_from fs cur cs = (Inr (), fs')" and "list_all clean_name cs"
  shows "lookup fs' q = (if prefix cur q \<and> prefix q (cur @ cs) then Some Dir else lookup fs q)"
  using assms
proof (induction cs arbitrary: fs cur)
  case Nil
  then show ?case by (auto split: sum.splits dest!: ensure_dir_lookup [where q = q] dest: prefix_order.antisym)
next
  case (Cons c cs)
  from Cons.prems obtain fs1 where e: "ensure_dir fs cur = Inr fs1"
    and m: "makedirs_from fs1 (cur @ [c]) cs = (Inr (), fs')"
    by (auto split: sum.splits)
  have c: "list_all clean_name cs" using Cons.prems(2) by simp
  have "prefix cur q \<and> prefix q (cur @ c # cs) \<longleftrightarrow> q = cur \<or> (prefix (cur @ [c]) q \<and> prefix q ((cur @ [c]) @ cs))"
  proof (cases "q = cur")
    case True
    then show ?thesis by auto
  next
    case False
    show ?thesis
    proof
      assume a: "prefix cur q \<and> prefix q (cur @ c # cs)"
      then obtain r where r: "q = cur @ r" by (auto simp: prefix_def)
      with a False have "prefix r (c # cs)" "r \<noteq> []" by auto
      then obtain r' where "r = c # r'" "prefix r' cs" by (auto simp: prefix_Cons)
      with r show "q = cur \<or> (prefix (cur @ [c]) q \<and> prefix q ((cur @ [c]) @ cs))" by auto
    next
      assume "q = cur \<or> (prefix (cur @ [c]) q \<and> prefix q ((cur @ [c]) @ cs))"
      with False show "prefix cur q \<and> prefix q (cur @ c # cs)"
        by (auto dest: append_prefixD)
    qed
  qed
  with Cons.IH [OF m c] ensure_dir_lookup [OF e, of q] show ?case by auto
qed

lemma makedirs_from_distinct:
  "makedirs_from fs cur cs = (Inr (), fs') \<Longrightarrow> distinct (map fst fs) \<Longrightarrow> distinct (map fst fs')"
  by (induction cs arbitrary: fs cur) (auto split: sum.splits dest: ensure_dir_distinct)

lemma makedirs_from_skip:
  "walk_to fs cur xs = Inr p \<Longrightarrow> lookup fs p = Some Dir \<Longrightarrow>
   makedirs_from fs cur (xs @ ys) = makedirs_from fs p ys"
proof (induction xs arbitrary: cur)
  case Nil
  then show ?case by (cases ys) (auto simp: ensure_dir_def)
next
  case (Cons x xs)
  then show ?case by (auto simp: ensure_dir_def split: option.splits node.splits)
qed

subsection \<open>The path of a key below the project directory\<close>

lemma last_split_sep_slash: "s \<noteq> [] \<Longrightarrow> last s = CHR ''/'' \<Longrightarrow> last (split_sep s) = []"
proof -
  assume "s \<noteq> []" "last s = CHR ''/''"
  then have "s = butlast s @ CHR ''/'' # []" by (metis append_butlast_last_id)
  then have "split_sep s = split_sep (butlast s) @ split_sep []"
    by (metis split_sep_append_slash)
  then show ?thesis by simp
qed

lemma clean_key_first: "clean_key k \<Longrightarrow> take 1 k \<noteq> ''/''"
  by (cases k) (auto simp: clean_key_def clean_name_def split: list.splits if_splits)

lemma join_clean_key:
  assumes "last (split_sep dir) \<noteq> []" and "clean_key k"
  shows "os_path_join dir k = dir @ CHR ''/'' # k"
proof -
  have "dir \<noteq> []" using assms(1) by auto
  moreover have "last dir \<noteq> CHR ''/''" using assms(1) last_split_sep_slash [of dir] \<open>dir \<noteq> []\<close> by auto
  ultimately show ?thesis using clean_key_first [OF assms(2)] by (simp add: os_path_join_def)
qed

lemma dirname_of_file_path:
  assumes "last (split_sep dir) \<noteq> []" and "clean_key k"
  shows "split_sep (os_path_dirname (dir @ CHR ''/'' # k)) = split_sep dir @ butlast (split_sep k)"
proof -
  let ?P = "split_sep dir" and ?K = "split_sep k"
  have K: "?K = butlast ?K @ [last ?K]" by simp
  have fp: "dir @ CHR ''/'' # k = join_sep ((?P @ butlast ?K) @ [last ?K])"
    by (metis K append.assoc join_split split_sep_append_slash)
  have cl: "list_all clean_name ?K" using assms(2) by (simp add: clean_key_def)
  have lastK: "CHR ''/'' \<notin> set (last ?K)"
    by (rule split_sep_no_slash [of _ k]) simp
  have l: "last (?P @ butlast ?K) \<noteq> [] \<and> CHR ''/'' \<notin> set (last (?P @ butlast ?K))"
  proof (cases "butlast ?K = []")
    case True
    then show ?thesis using assms(1) split_sep_no_slash [of "last ?P" dir] by simp
  next
    case False
    then have "last (butlast ?K) \<in> set ?K" by (metis in_set_butlastD last_in_set)
    with cl have "clean_name (last (butlast ?K))" by (simp add: list_all_iff)
    with False show ?thesis by (simp add: clean_name_def)
  qed
  have "os_path_dirname (dir @ CHR ''/'' # k) = join_sep (?P @ butlast ?K)"
    unfolding fp using l lastK by (intro dirname_join) auto
  moreover have "split_sep (join_sep (?P @ butlast ?K)) = ?P @ butlast ?K"
    by (rule split_join) (auto dest: split_sep_no_slash in_set_butlastD)
  ultimately show ?thesis by simp
qed

text \<open>One round of the loop, on components.\<close>

lemma write_step:
  assumes P: "walk_to fs [] (split_sep dir) = Inr pp" "lookup fs pp = Some Dir"
      and L: "last (split_sep dir) \<noteq> []"
      and K: "clean_key k"
  shows "write_project_files env fs dir ((k, v) # rest) =
     (case makedirs_from fs pp (butlast (split_sep k)) of
        (Inl e, fs1) \<Rightarrow> (Inl e, fs1)
      | (Inr u, fs1) \<Rightarrow>
          (case lookup fs1 (pp @ split_sep k) of
             Some Dir \<Rightarrow> (Inl (IsADirectoryError (dir @ CHR ''/'' # k)), fs1)
           | _ \<Rightarrow> write_project_files env (AList.update (pp @ split_sep k) (File (file_text env v)) fs1) dir rest))"
proof -
  let ?K = "split_sep k"
  have cl: "list_all clean_name ?K" using K by (simp add: clean_key_def)
  have j: "os_path_join dir k = dir @ CHR ''/'' # k" by (rule join_clean_key [OF L K])
  have md: "os_makedirs fs (os_path_dirname (dir @ CHR ''/'' # k)) = makedirs_from fs pp (butlast ?K)"
    unfolding os_makedirs_def dirname_of_file_path [OF L K] by (rule makedirs_from_skip [OF P])
  show ?thesis
  proof (cases "makedirs_from fs pp (butlast ?K)")
    case (Pair r fs1)
    show ?thesis
    proof (cases r)
      case (Inl e)
      with Pair md j show ?thesis by simp
    next
      case (Inr u)
      have cb: "list_all clean_name (butlast ?K)" using cl by (auto simp: list_all_iff dest: in_set_butlastD)
      have lk: "\<And>q. lookup fs1 q = (if prefix pp q \<and> prefix q (pp @ butlast ?K) then Some Dir else lookup fs q)"
        using makedirs_from_lookup [OF _ cb] Pair Inr by auto
      have dk: "dirs_kept fs fs1" using lk by (auto simp: dirs_kept_def)
      have w1: "walk_to fs1 [] (split_sep dir) = Inr pp" by (rule walk_to_mono [OF dk P(1)])
      have w2: "walk_to fs1 pp ?K = Inr (pp @ ?K)"
      proof (rule walk_to_clean [OF cl], intro allI impI)
        fix p assume sp: "strict_prefix p ?K"
        then have "prefix p (butlast ?K)"
          by (metis K append_butlast_last_id prefix_snoc split_sep_nonempty strict_prefix_def K)
        then show "lookup fs1 (pp @ p) = Some Dir" using lk by auto
      qed
      have r: "resolve fs1 (dir @ CHR ''/'' # k) = Inr (pp @ ?K)"
        by (simp add: resolve_def split_sep_append_slash walk_to_append w1 w2)
      show ?thesis
        using Pair Inr md j r
        by (auto simp: open_write_def split: option.splits node.splits)
    qed
  qed
qed

subsection \<open>The loop that writes the mapping\<close>

lemma split_sep_inj: "split_sep k = split_sep k' \<Longrightarrow> k = k'"
  by (metis join_split)

lemma strict_prefix_butlast: "xs \<noteq> [] \<Longrightarrow> strict_prefix p xs \<longleftrightarrow> prefix p (butlast xs)"
  by (cases xs rule: rev_cases) (auto simp: strict_prefix_def prefix_snoc dest: prefix_length_le)

lemma makedirs_from_no_file:
  assumes "makedirs_from fs cur cs = (Inr (), fs')" and "list_all clean_name cs"
      and "prefix cur q" and "prefix q (cur @ cs)"
  shows "lookup fs q \<noteq> Some (File b)"
  using assms
proof (induction cs arbitrary: fs cur)
  case Nil
  then have "q = cur" by (auto dest: prefix_order.antisym)
  with Nil show ?case by (auto simp: ensure_dir_def split: sum.splits option.splits node.splits)
next
  case (Cons c cs)
  from Cons.prems obtain fs1 where e: "ensure_dir fs cur = Inr fs1"
    and m: "makedirs_from fs1 (cur @ [c]) cs = (Inr (), fs')"
    by (auto split: sum.splits)
  show ?case
  proof (cases "q = cur")
    case True
    with e show ?thesis by (auto simp: ensure_dir_def split: option.splits node.splits)
  next
    case False
    from Cons.prems(3) obtain r where r: "q = cur @ r" by (auto simp: prefix_def)
    with Cons.prems(4) False have "prefix r (c # cs)" "r \<noteq> []" by auto
    then obtain r' where "r = c # r'" "prefix r' cs" by (auto simp: prefix_Cons)
    with r have "prefix (cur @ [c]) q" "prefix q ((cur @ [c]) @ cs)" by auto
    with Cons.IH [OF m] Cons.prems(2) have "lookup fs1 q \<noteq> Some (File b)" by simp
    with ensure_dir_lookup [OF e, of q] False show ?thesis by simp
  qed
qed

lemma project_inv_step:
  assumes inv: "project_inv env fs pp written"
      and fresh: "k \<notin> fst ` set written"
      and lk1: "\<And>q. lookup fs1 q = (if prefix pp q \<and> prefix q (pp @ butlast (split_sep k)) then Some Dir else lookup fs q)"
      and nf: "\<And>q b. prefix pp q \<Longrightarrow> prefix q (pp @ butlast (split_sep k)) \<Longrightarrow> lookup fs q \<noteq> Some (File b)"
      and nd: "lookup fs1 (pp @ split_sep k) \<noteq> Some Dir"
      and lk2: "\<And>q. lookup fs2 q = (if q = pp @ split_sep k then Some (File (file_text env v)) else lookup fs1 q)"
  shows "project_inv env fs2 pp (written @ [(k, v)])"
proof -
  let ?K = "split_sep k"
  have Kne: "?K \<noteq> []" by simp
  have sp: "\<And>p. strict_prefix p (pp @ ?K) \<longleftrightarrow> prefix p (pp @ butlast ?K)"
    using strict_prefix_butlast [of "pp @ ?K"] by (simp add: butlast_append)
  have nk: "\<not> prefix (pp @ ?K) (pp @ butlast ?K)"
    using sp [of "pp @ ?K"] by simp
  have a: "lookup fs2 pp = Some Dir"
    using inv by (auto simp: lk2 lk1 project_inv_def)
  have b: "\<exists>(k', v') \<in> set (written @ [(k, v)]).
            (q = pp @ split_sep k' \<and> lookup fs2 q = Some (File (file_text env v'))) \<or>
            (strict_prefix q (pp @ split_sep k') \<and> lookup fs2 q = Some Dir)"
    if q: "strict_prefix pp q" "lookup fs2 q \<noteq> None" for q
  proof (cases "q = pp @ ?K")
    case True
    then show ?thesis by (auto simp: lk2)
  next
    case ne: False
    show ?thesis
    proof (cases "prefix q (pp @ butlast ?K)")
      case True
      with q ne show ?thesis by (auto simp: lk2 lk1 sp)
    next
      case False
      with q ne have l: "lookup fs2 q = lookup fs q" "lookup fs q \<noteq> None" by (auto simp: lk2 lk1)
      with inv q(1) obtain k' v' where kv: "(k', v') \<in> set written"
        "(q = pp @ split_sep k' \<and> lookup fs q = Some (File (file_text env v'))) \<or>
            (strict_prefix q (pp @ split_sep k') \<and> lookup fs q = Some Dir)"
        unfolding project_inv_def by blast
      then show ?thesis using l(1) by auto
    qed
  qed
  have c: "lookup fs2 (pp @ split_sep k') = Some (File (file_text env v')) \<and>
         (\<forall>p. prefix pp p \<longrightarrow> strict_prefix p (pp @ split_sep k') \<longrightarrow> lookup fs2 p = Some Dir)"
    if kv: "(k', v') \<in> set (written @ [(k, v)])" for k' v'
  proof (cases "(k', v') = (k, v)")
    case True
    then show ?thesis using nk by (auto simp: lk2 lk1 sp)
  next
    case False
    with kv have w: "(k', v') \<in> set written" by auto
    with fresh have kk: "k' \<noteq> k" by force
    then have ne: "pp @ split_sep k' \<noteq> pp @ ?K" by (auto dest: split_sep_inj)
    from inv w have f: "lookup fs (pp @ split_sep k') = Some (File (file_text env v'))"
      and d: "\<And>p. prefix pp p \<Longrightarrow> strict_prefix p (pp @ split_sep k') \<Longrightarrow> lookup fs p = Some Dir"
      unfolding project_inv_def by blast+
    have "lookup fs2 (pp @ split_sep k') = Some (File (file_text env v'))"
    proof (cases "prefix (pp @ split_sep k') (pp @ butlast ?K)")
      case True
      then show ?thesis using f nf [of "pp @ split_sep k'"] by simp
    next
      case False
      then show ?thesis using f ne by (simp add: lk2 lk1)
    qed
    moreover have "lookup fs2 p = Some Dir" if "prefix pp p" "strict_prefix p (pp @ split_sep k')" for p
    proof -
      have "lookup fs p = Some Dir" using d that by blast
      then have "lookup fs1 p = Some Dir" by (simp add: lk1)
      with nd show ?thesis by (auto simp: lk2)
    qed
    ultimately show ?thesis by blast
  qed
  show ?thesis
    unfolding project_inv_def using a b c by blast
qed

lemma ensure_dir_dirs_kept: "ensure_dir fs p = Inr fs' \<Longrightarrow> dirs_kept fs fs'"
  by (simp add: dirs_kept_def ensure_dir_lookup)

lemma makedirs_from_dirs_kept: "makedirs_from fs cur cs = (r, fs') \<Longrightarrow> dirs_kept fs fs'"
proof (induction cs arbitrary: fs cur)
  case Nil
  then show ?case by (auto split: sum.splits dest: ensure_dir_dirs_kept)
next
  case (Cons c cs)
  show ?case
  proof (cases "ensure_dir fs cur")
    case (Inl e)
    with Cons.prems show ?thesis by simp
  next
    case (Inr fs1)
    with Cons.prems have "makedirs_from fs1 (step cur c) cs = (r, fs')" by simp
    then have "dirs_kept fs1 fs'" by (rule Cons.IH)
    with ensure_dir_dirs_kept [OF Inr] show ?thesis by (rule dirs_kept_trans)
  qed
qed

lemma open_write_dirs_kept: "open_write fs s d = Inr fs' \<Longrightarrow> dirs_kept fs fs'"
  by (auto simp: open_write_def dirs_kept_def lookup_def update_conv'
      split: sum.splits option.splits node.splits if_splits)

lemma write_project_files_dirs_kept:
  "write_project_files env fs dir items = (r, fs') \<Longrightarrow> dirs_kept fs fs'"
proof (induction items arbitrary: fs)
  case Nil
  then show ?case by simp
next
  case (Cons kv items)
  obtain k v where kv: "kv = (k, v)" by (cases kv)
  obtain r1 fs1 where m: "os_makedirs fs (os_path_dirname (os_path_join dir k)) = (r1, fs1)"
    by (cases "os_makedirs fs (os_path_dirname (os_path_join dir k))")
  have d1: "dirs_kept fs fs1" using m unfolding os_makedirs_def by (rule makedirs_from_dirs_kept)
  show ?case
  proof (cases r1)
    case (Inl e)
    with Cons.prems kv m d1 show ?thesis by (simp add: Let_def)
  next
    case (Inr u)
    show ?thesis
    proof (cases "open_write fs1 (os_path_join dir k) (file_text env v)")
      case (Inl e)
      with Cons.prems kv m d1 Inr show ?thesis by (simp add: Let_def)
    next
      case r2: (Inr fs2)
      with Cons.prems kv m Inr have "write_project_files env fs2 dir items = (r, fs')"
        by (simp add: Let_def)
      then have "dirs_kept fs2 fs'" by (rule Cons.IH)
      with d1 open_write_dirs_kept [OF r2] show ?thesis by (blast intro: dirs_kept_trans)
    qed
  qed
qed

lemma update_dirs_kept: "lookup fs p \<noteq> Some Dir \<Longrightarrow> dirs_kept fs (AList.update p n fs)"
  by (auto simp: dirs_kept_def lookup_def update_conv' split: if_splits)

lemma write_loop_inv:
  assumes "write_project_files env fs dir items = (Inr (), fs')"
      and "walk_to fs [] (split_sep dir) = Inr pp" and "last (split_sep dir) \<noteq> []"
      and "list_all clean_key (map fst items)" and "distinct (map fst (written @ items))"
      and "project_inv env fs pp written" and "distinct (map fst fs)"
  shows "project_inv env fs' pp (written @ items) \<and> distinct (map fst fs')"
  using assms
proof (induction items arbitrary: fs written)
  case Nil
  then show ?case by simp
next
  case (Cons kv rest)
  obtain k v where kv: "kv = (k, v)" by (cases kv)
  let ?K = "split_sep k"
  have ck: "clean_key k" using Cons.prems(4) kv by simp
  then have cl: "list_all clean_name ?K" by (simp add: clean_key_def)
  have cb: "list_all clean_name (butlast ?K)" using cl by (auto simp: list_all_iff dest: in_set_butlastD)
  have dp: "lookup fs pp = Some Dir" using Cons.prems(6) by (simp add: project_inv_def)
  note ws = write_step [OF Cons.prems(2) dp Cons.prems(3) ck, of env v rest]
  from Cons.prems(1) [unfolded kv ws] obtain fs1 where
    m: "makedirs_from fs pp (butlast ?K) = (Inr (), fs1)"
    and nd: "lookup fs1 (pp @ ?K) \<noteq> Some Dir"
    and w: "write_project_files env (AList.update (pp @ ?K) (File (file_text env v)) fs1) dir rest = (Inr (), fs')"
    by (auto split: prod.splits sum.splits option.splits node.splits)
  let ?fs2 = "AList.update (pp @ ?K) (File (file_text env v)) fs1"
  have lk1: "\<And>q. lookup fs1 q = (if prefix pp q \<and> prefix q (pp @ butlast ?K) then Some Dir else lookup fs q)"
    by (rule makedirs_from_lookup [OF m cb])
  have nf: "\<And>q b. prefix pp q \<Longrightarrow> prefix q (pp @ butlast ?K) \<Longrightarrow> lookup fs q \<noteq> Some (File b)"
    by (rule makedirs_from_no_file [OF m cb])
  have lk2: "\<And>q. lookup ?fs2 q = (if q = pp @ ?K then Some (File (file_text env v)) else lookup fs1 q)"
    by (rule lookup_update) simp
  have fresh: "k \<notin> fst ` set written" using Cons.prems(5) kv by auto
  have inv2: "project_inv env ?fs2 pp (written @ [(k, v)])"
    by (rule project_inv_step [OF Cons.prems(6) fresh lk1 nf nd lk2])
  have d2: "distinct (map fst ?fs2)"
    using makedirs_from_distinct [OF m Cons.prems(7)] by (simp add: distinct_update)
  have dk: "dirs_kept fs ?fs2"
    using makedirs_from_dirs_kept [OF m] update_dirs_kept [OF nd] by (rule dirs_kept_trans)
  have w2: "walk_to ?fs2 [] (split_sep dir) = Inr pp" by (rule walk_to_mono [OF dk Cons.prems(2)])
  have "project_inv env fs' pp ((written @ [(k, v)]) @ rest) \<and> distinct (map fst fs')"
    using Cons.prems(4,5) kv
    by (intro Cons.IH [OF w w2 Cons.prems(3) _ _ inv2 d2]) auto
  then show ?case by (simp add: kv)
qed

section \<open>The archive of the project directory\<close>

lemma clean_name_key: "clean_name c \<Longrightarrow> clean_key c"
  by (simp add: clean_key_def split_sep_plain clean_name_def)

lemma split_foldl_join:
  "last (split_sep a) \<noteq> [] \<Longrightarrow> list_all clean_name cs \<Longrightarrow>
   split_sep (foldl os_path_join a cs) = split_sep a @ cs"
proof (induction cs arbitrary: a)
  case Nil
  then show ?case by simp
next
  case (Cons c cs)
  then have c: "clean_name c" by simp
  have j: "os_path_join a c = a @ CHR ''/'' # c"
    by (rule join_clean_key [OF Cons.prems(1) clean_name_key [OF c]])
  have s: "split_sep (a @ CHR ''/'' # c) = split_sep a @ [c]"
    using c by (simp add: split_sep_append_slash split_sep_plain clean_name_def)
  have "split_sep (foldl os_path_join (a @ CHR ''/'' # c) cs) = split_sep (a @ CHR ''/'' # c) @ cs"
    using Cons.prems(2) c s by (intro Cons.IH) (auto simp: clean_name_def)
  then show ?case by (simp add: j s)
qed

lemma common_prefix_append [simp]: "common_prefix pp (pp @ ks) = length pp"
proof (induction pp)
  case Nil
  then show ?case by (cases ks) auto
next
  case (Cons a pp)
  then show ?case by simp
qed

lemma relpath_under:
  assumes "normpath dir = pp" and "split_sep fp = split_sep dir @ ks" and "list_all clean_name ks" and "ks \<noteq> []"
  shows "os_path_relpath fp dir = join_sep ks"
proof -
  have "normpath fp = pp @ ks"
    using assms(1,2,3) by (simp add: normpath_def foldl_step_clean)
  then show ?thesis using assms(1,4) by (simp add: os_path_relpath_def Let_def)
qed

lemma zip_write_all_ok:
  "(\<And>fp. fp \<in> set fps \<Longrightarrow> \<exists>b. read_bytes fs fp = Inr b) \<Longrightarrow>
   zip_write_all fs dir fps = Inr (map (\<lambda>fp. (os_path_relpath fp dir, projr (read_bytes fs fp))) fps)"
proof (induction fps)
  case Nil
  then show ?case by simp
next
  case (Cons fp fps)
  from Cons.prems [of fp] obtain b where b: "read_bytes fs fp = Inr b" by auto
  have "zip_write_all fs dir fps = Inr (map (\<lambda>fp. (os_path_relpath fp dir, projr (read_bytes fs fp))) fps)"
    by (rule Cons.IH) (simp add: Cons.prems)
  with b show ?case by simp
qed

text \<open>The file paths a walk without pruning hands to the archive.\<close>

lemma os_walk_all:
  assumes "resolve fs dir = Inr pp" and "lookup fs pp = Some Dir"
  shows "os_walk fs dir (\<lambda>d. False) =
     map (\<lambda>d. (foldl os_path_join dir (drop (length pp) d),
               [c. (c, n) \<leftarrow> children fs d, n = Dir],
               [c. (c, n) \<leftarrow> children fs d, n \<noteq> Dir]))
         (pp # [q. (q, n) \<leftarrow> fs, n = Dir, length pp < length q, take (length pp) q = pp])"
proof -
  have ex: "list_ex (\<lambda>d. False) xs = False" for xs :: "string list"
    by (induction xs) auto
  have m: "concat (map (\<lambda>d. [f d]) xs) = map f xs" for f :: "path \<Rightarrow> string \<times> string list \<times> string list" and xs
    by (induction xs) auto
  show ?thesis
    using assms by (simp add: os_walk_def ex m cong: if_cong)
qed

lemma children_iff:
  "(c, n) \<in> set (children fs d) \<longleftrightarrow> (\<exists>q. (q, n) \<in> set fs \<and> q \<noteq> [] \<and> butlast q = d \<and> c = last q)"
  by (auto simp: children_def)

lemma walk_files_iff:
  "x \<in> set (concat (map (\<lambda>d. map (g d) [c. (c, n) \<leftarrow> ch d, n \<noteq> Dir]) ds)) \<longleftrightarrow>
   (\<exists>d c n. d \<in> set ds \<and> (c, n) \<in> set (ch d) \<and> n \<noteq> Dir \<and> x = g d c)"
  by auto

lemma zip_tree_project:
  assumes R: "walk_to fs [] (split_sep dir) = Inr pp" and L: "last (split_sep dir) \<noteq> []"
      and inv: "project_inv env fs pp items" and dist: "distinct (map fst fs)"
      and ck: "list_all clean_key (map fst items)"
  shows "\<exists>es. zip_tree fs dir = Inr es \<and> set es = (\<lambda>(k, v). (k, file_text env v)) ` set items"
proof -
  let ?P = "split_sep dir"
  let ?V = "pp # [q. (q, n) \<leftarrow> fs, n = Dir, length pp < length q, take (length pp) q = pp]"
  let ?fpk = "\<lambda>k. os_path_join (foldl os_path_join dir (butlast (split_sep k))) (last (split_sep k))"
  let ?FP = "concat (map (\<lambda>d. map (os_path_join (foldl os_path_join dir (drop (length pp) d)))
                                   [c. (c, n) \<leftarrow> children fs d, n \<noteq> Dir]) ?V)"
  have dp: "lookup fs pp = Some Dir" using inv by (simp add: project_inv_def)
  have np: "normpath dir = pp" using walk_to_result [OF R] by (simp add: normpath_def)
  have sing: "concat (map (\<lambda>x. [g x]) xs) = map g xs" for g :: "string \<Rightarrow> string" and xs
    by (induction xs) auto
  have zt: "zip_tree fs dir = zip_write_all fs dir ?FP"
    unfolding zip_tree_def os_walk_all [OF R [folded resolve_def] dp]
    by (simp add: comp_def sing)
  have A: "split_sep (?fpk k) = ?P @ split_sep k \<and> read_bytes fs (?fpk k) = Inr (file_text env v)
           \<and> os_path_relpath (?fpk k) dir = k"
    if kv: "(k, v) \<in> set items" for k v
  proof -
    let ?K = "split_sep k"
    have cl: "list_all clean_name ?K" using ck kv by (auto simp: list_all_iff clean_key_def)
    have cb: "list_all clean_name (butlast ?K)" using cl by (auto simp: list_all_iff dest: in_set_butlastD)
    have cn: "clean_name (last ?K)" using cl by (simp add: list_all_iff)
    have s1: "split_sep (foldl os_path_join dir (butlast ?K)) = ?P @ butlast ?K"
      by (rule split_foldl_join [OF L cb])
    have l1: "last (?P @ butlast ?K) \<noteq> []"
    proof (cases "butlast ?K = []")
      case True
      then show ?thesis using L by simp
    next
      case False
      then have "last (butlast ?K) \<in> set (butlast ?K)" by simp
      with cb have "clean_name (last (butlast ?K))" by (simp add: list_all_iff)
      with False show ?thesis by (simp add: clean_name_def)
    qed
    have j: "?fpk k = foldl os_path_join dir (butlast ?K) @ CHR ''/'' # last ?K"
      by (rule join_clean_key [OF _ clean_name_key [OF cn]]) (simp add: s1 l1)
    have s2: "split_sep (?fpk k) = ?P @ ?K"
      unfolding j using cn by (simp add: split_sep_append_slash s1 split_sep_plain clean_name_def)
    from inv kv have f: "lookup fs (pp @ ?K) = Some (File (file_text env v))"
      and anc: "\<And>p. prefix pp p \<Longrightarrow> strict_prefix p (pp @ ?K) \<Longrightarrow> lookup fs p = Some Dir"
      unfolding project_inv_def by blast+
    have w: "walk_to fs pp ?K = Inr (pp @ ?K)"
      by (rule walk_to_clean [OF cl]) (auto intro!: anc simp: strict_prefix_def)
    have r: "resolve fs (?fpk k) = Inr (pp @ ?K)"
      unfolding resolve_def s2 by (simp add: walk_to_append R w)
    have rb: "read_bytes fs (?fpk k) = Inr (file_text env v)"
      by (simp add: read_bytes_def r f)
    have "os_path_relpath (?fpk k) dir = join_sep ?K"
      by (rule relpath_under [OF np s2 cl]) simp
    with s2 rb show ?thesis by simp
  qed
  have B: "\<exists>(k, v) \<in> set items. fp = ?fpk k" if fp: "fp \<in> set ?FP" for fp
  proof -
    from fp [unfolded walk_files_iff]
    obtain d c n where d: "d \<in> set ?V" and c: "(c, n) \<in> set (children fs d)" and n: "n \<noteq> Dir"
      and e: "fp = os_path_join (foldl os_path_join dir (drop (length pp) d)) c"
      by blast
    from c obtain q where q: "(q, n) \<in> set fs" "q \<noteq> []" "butlast q = d" "c = last q"
      by (auto simp: children_iff)
    have pd: "prefix pp d"
    proof (cases "d = pp")
      case True
      then show ?thesis by simp
    next
      case False
      with d have "take (length pp) d = pp" by auto
      then show ?thesis by (metis take_is_prefix)
    qed
    have qd: "q = d @ [c]" using q append_butlast_last_id [of q] by simp
    then have sp: "strict_prefix pp q" using pd by (auto simp: strict_prefix_def prefix_def)
    have lq: "lookup fs q = Some n" by (rule set_lookup [OF dist q(1,2)])
    have J3: "\<exists>kv \<in> set items. (q = pp @ split_sep (fst kv) \<and> lookup fs q = Some (File (file_text env (snd kv)))) \<or>
            (strict_prefix q (pp @ split_sep (fst kv)) \<and> lookup fs q = Some Dir)"
      using inv sp lq unfolding project_inv_def by (fastforce simp: split_def)
    then obtain k v where kv: "(k, v) \<in> set items"
      and alt: "(q = pp @ split_sep k \<and> lookup fs q = Some (File (file_text env v))) \<or>
            (strict_prefix q (pp @ split_sep k) \<and> lookup fs q = Some Dir)"
      by force
    with lq n have qk: "q = pp @ split_sep k" by auto
    then have "d = pp @ butlast (split_sep k)" "c = last (split_sep k)"
      using q(3,4) by (simp_all add: butlast_append)
    with e kv show ?thesis by auto
  qed
  have C: "?fpk k \<in> set ?FP" if kv: "(k, v) \<in> set items" for k v
  proof -
    let ?K = "split_sep k"
    let ?d = "pp @ butlast ?K"
    from inv kv have f: "lookup fs (pp @ ?K) = Some (File (file_text env v))"
      and anc: "\<And>p. prefix pp p \<Longrightarrow> strict_prefix p (pp @ ?K) \<Longrightarrow> lookup fs p = Some Dir"
      unfolding project_inv_def by blast+
    have m: "(pp @ ?K, File (file_text env v)) \<in> set fs"
      by (rule lookup_Some_set [OF f]) simp
    have dV: "?d \<in> set ?V"
    proof (cases "butlast ?K = []")
      case True
      then show ?thesis by simp
    next
      case False
      have "strict_prefix ?d (pp @ ?K)"
        using strict_prefix_butlast [of "pp @ ?K" ?d] by (simp add: butlast_append)
      then have "lookup fs ?d = Some Dir" by (intro anc) auto
      then have "(?d, Dir) \<in> set fs" using False by (intro lookup_Some_set) auto
      moreover have "length pp < length ?d" using False by (cases "butlast ?K") auto
      moreover have "take (length pp) ?d = pp" by simp
      ultimately show ?thesis by (auto simp del: length_butlast length_append)
    qed
    have ch: "(last ?K, File (file_text env v)) \<in> set (children fs ?d)"
      unfolding children_iff
      by (rule exI [of _ "pp @ ?K"]) (use m in \<open>simp add: butlast_append\<close>)
    have "os_path_join (foldl os_path_join dir (drop (length pp) ?d)) (last ?K) \<in> set ?FP"
      unfolding walk_files_iff using dV ch by blast
    then show ?thesis by simp
  qed
  have ok: "\<exists>b. read_bytes fs fp = Inr b" if "fp \<in> set ?FP" for fp
    using B [OF that] A by blast
  have es: "zip_tree fs dir = Inr (map (\<lambda>fp. (os_path_relpath fp dir, projr (read_bytes fs fp))) ?FP)"
    unfolding zt by (rule zip_write_all_ok) (rule ok)
  have "set (map (\<lambda>fp. (os_path_relpath fp dir, projr (read_bytes fs fp))) ?FP)
        = (\<lambda>(k, v). (k, file_text env v)) ` set items"
  proof (intro equalityI subsetI)
    fix x assume "x \<in> set (map (\<lambda>fp. (os_path_relpath fp dir, projr (read_bytes fs fp))) ?FP)"
    then obtain fp where fp: "fp \<in> set ?FP" and x: "x = (os_path_relpath fp dir, projr (read_bytes fs fp))"
      unfolding set_map by blast
    from B [OF fp] obtain k v where kv: "(k, v) \<in> set items" and e: "fp = ?fpk k" by auto
    from A [OF kv] e x have "x = (k, file_text env v)" by simp
    with kv show "x \<in> (\<lambda>(k, v). (k, file_text env v)) ` set items" by force
  next
    fix x assume "x \<in> (\<lambda>(k, v). (k, file_text env v)) ` set items"
    then obtain k v where kv: "(k, v) \<in> set items" and x: "x = (k, file_text env v)" by auto
    from A [OF kv] x have "x = (os_path_relpath (?fpk k) dir, projr (read_bytes fs (?fpk k)))" by simp
    with C [OF kv] show "x \<in> set (map (\<lambda>fp. (os_path_relpath fp dir, projr (read_bytes fs fp))) ?FP)"
      unfolding set_map by (rule image_eqI [rotated])
  qed
  with es show ?thesis by blast
qed

text \<open>No entry comes twice: the walk hands over as many files as the mapping has keys.\<close>

lemma sum_filter_partition:
  "distinct ds \<Longrightarrow>
   sum_list (map (\<lambda>d. length (filter (\<lambda>x. g x = d \<and> P x) xs)) ds)
     = length (filter (\<lambda>x. g x \<in> set ds \<and> P x) xs)"
proof (induction ds)
  case Nil
  then show ?case by simp
next
  case (Cons d ds)
  have "length (filter (\<lambda>x. g x \<in> set (d # ds) \<and> P x) xs)
        = length (filter (\<lambda>x. g x = d \<and> P x) xs) + length (filter (\<lambda>x. g x \<in> set ds \<and> P x) xs)"
    using Cons.prems by (induction xs) auto
  with Cons show ?case by simp
qed

lemma walked_dirs_distinct:
  assumes "distinct (map fst fs)"
  shows "distinct (pp # [q. (q, n) \<leftarrow> fs, n = Dir, length pp < length q, take (length pp) q = pp])"
proof -
  have "distinct [q. (q, n) \<leftarrow> fs, n = Dir, length pp < length q, take (length pp) q = pp]"
    using assms by (induction fs) (auto split: if_splits)
  then show ?thesis by auto
qed

lemma children_files_length:
  "length [c. (c, n) \<leftarrow> children fs d, n \<noteq> Dir]
     = length (filter (\<lambda>x. butlast (fst x) = d \<and> (fst x \<noteq> [] \<and> snd x \<noteq> Dir)) fs)"
  by (induction fs) (auto simp: children_def)


lemma zip_write_all_length: "zip_write_all fs dir fps = Inr es \<Longrightarrow> length es = length fps"
  by (induction fps arbitrary: es) (auto split: sum.splits)

lemma project_file_entries:
  assumes inv: "project_inv env fs pp items" and dist: "distinct (map fst fs)"
  shows "fst ` {x \<in> set fs. butlast (fst x) \<in> set (pp # [q. (q, n) \<leftarrow> fs, n = Dir, length pp < length q, take (length pp) q = pp])
                          \<and> (fst x \<noteq> [] \<and> snd x \<noteq> Dir)}
         = (\<lambda>k. pp @ split_sep k) ` fst ` set items"
    (is "fst ` ?F = ?R")
proof (intro equalityI subsetI)
  let ?V = "pp # [q. (q, n) \<leftarrow> fs, n = Dir, length pp < length q, take (length pp) q = pp]"
  fix q assume "q \<in> fst ` ?F"
  then obtain n where q: "(q, n) \<in> set fs" "butlast q \<in> set ?V" "q \<noteq> []" "n \<noteq> Dir" by auto
  have pd: "prefix pp (butlast q)"
  proof (cases "butlast q = pp")
    case True
    then show ?thesis by simp
  next
    case False
    with q(2) have "take (length pp) (butlast q) = pp" by auto
    then show ?thesis by (metis take_is_prefix)
  qed
  have "q = butlast q @ [last q]" using q(3) by simp
  then have sp: "strict_prefix pp q"
    using pd by (auto simp: strict_prefix_def prefix_def)
  have lq: "lookup fs q = Some n" by (rule set_lookup [OF dist q(1,3)])
  have "\<exists>kv \<in> set items. (q = pp @ split_sep (fst kv) \<and> lookup fs q = Some (File (file_text env (snd kv)))) \<or>
            (strict_prefix q (pp @ split_sep (fst kv)) \<and> lookup fs q = Some Dir)"
    using inv sp lq unfolding project_inv_def by (fastforce simp: split_def)
  with lq q(4) show "q \<in> ?R" by auto
next
  let ?V = "pp # [q. (q, n) \<leftarrow> fs, n = Dir, length pp < length q, take (length pp) q = pp]"
  fix q assume "q \<in> ?R"
  then obtain k v where kv: "(k, v) \<in> set items" and qk: "q = pp @ split_sep k" by auto
  let ?K = "split_sep k"
  let ?d = "pp @ butlast ?K"
  from inv kv have f: "lookup fs (pp @ ?K) = Some (File (file_text env v))"
    and anc: "\<And>p. prefix pp p \<Longrightarrow> strict_prefix p (pp @ ?K) \<Longrightarrow> lookup fs p = Some Dir"
    unfolding project_inv_def by blast+
  have m: "(pp @ ?K, File (file_text env v)) \<in> set fs"
    by (rule lookup_Some_set [OF f]) simp
  have dV: "?d \<in> set ?V"
  proof (cases "butlast ?K = []")
    case True
    then show ?thesis by simp
  next
    case False
    have "strict_prefix ?d (pp @ ?K)"
      using strict_prefix_butlast [of "pp @ ?K" ?d] by (simp add: butlast_append)
    then have "lookup fs ?d = Some Dir" by (intro anc) auto
    then have "(?d, Dir) \<in> set fs" using False by (intro lookup_Some_set) auto
    moreover have "length pp < length ?d" using False by (cases "butlast ?K") auto
    moreover have "take (length pp) ?d = pp" by simp
    ultimately show ?thesis by (auto simp del: length_butlast length_append)
  qed
  have bl: "butlast (pp @ ?K) = ?d" by (simp add: butlast_append)
  have ne: "pp @ ?K \<noteq> []" "File (file_text env v) \<noteq> Dir" by simp_all
  have "(pp @ ?K, File (file_text env v)) \<in> ?F"
    unfolding mem_Collect_eq fst_conv snd_conv bl using m dV ne by blast
  then show "q \<in> fst ` ?F" unfolding qk by (rule image_eqI [rotated]) simp
qed

lemma zip_tree_project_distinct:
  assumes R: "walk_to fs [] (split_sep dir) = Inr pp" and L: "last (split_sep dir) \<noteq> []"
      and inv: "project_inv env fs pp items" and dist: "distinct (map fst fs)"
      and ck: "list_all clean_key (map fst items)" and dk: "distinct (map fst items)"
      and z: "zip_tree fs dir = Inr es"
  shows "distinct (map fst es)"
proof -
  let ?V = "pp # [q. (q, n) \<leftarrow> fs, n = Dir, length pp < length q, take (length pp) q = pp]"
  let ?FP = "concat (map (\<lambda>d. map (os_path_join (foldl os_path_join dir (drop (length pp) d)))
                                   [c. (c, n) \<leftarrow> children fs d, n \<noteq> Dir]) ?V)"
  let ?F = "filter (\<lambda>x. butlast (fst x) \<in> set ?V \<and> (fst x \<noteq> [] \<and> snd x \<noteq> Dir)) fs"
  have dp: "lookup fs pp = Some Dir" using inv by (simp add: project_inv_def)
  have sing: "concat (map (\<lambda>x. [g x]) xs) = map g xs" for g :: "string \<Rightarrow> string" and xs
    by (induction xs) auto
  have zt: "zip_tree fs dir = zip_write_all fs dir ?FP"
    unfolding zip_tree_def os_walk_all [OF R [folded resolve_def] dp]
    by (simp add: comp_def sing)
  have "length es = length ?FP" using z unfolding zt by (rule zip_write_all_length)
  also have "\<dots> = sum_list (map (\<lambda>d. length [c. (c, n) \<leftarrow> children fs d, n \<noteq> Dir]) ?V)"
    by (simp only: length_concat map_map comp_def length_map)
  also have "\<dots> = sum_list (map (\<lambda>d. length (filter (\<lambda>x. butlast (fst x) = d \<and> (fst x \<noteq> [] \<and> snd x \<noteq> Dir)) fs)) ?V)"
    by (simp only: children_files_length)
  also have "\<dots> = length ?F"
    by (rule sum_filter_partition [OF walked_dirs_distinct [OF dist]])
  also have "\<dots> = length (map fst ?F)" by simp
  also have "\<dots> = card (set (map fst ?F))"
    using dist by (intro distinct_card [symmetric]) (simp add: distinct_map_filter)
  also have "set (map fst ?F) = (\<lambda>k. pp @ split_sep k) ` fst ` set items"
    using project_file_entries [OF inv dist] by simp
  also have "card ((\<lambda>k. pp @ split_sep k) ` fst ` set items) = card (fst ` set items)"
    by (intro card_image inj_onI) (auto dest: split_sep_inj)
  also have "\<dots> = length items"
    using distinct_card [OF dk] by simp
  finally have len: "length es = length items" .
  from zip_tree_project [OF R L inv dist ck] z
  have "set es = (\<lambda>(k, v). (k, file_text env v)) ` set items" by auto
  then have "set (map fst es) = fst ` set items" by (force simp: image_iff)
  then have "card (set (map fst es)) = length (map fst es)"
    using distinct_card [OF dk] len by simp
  then show ?thesis by (rule card_distinct)
qed

text \<open>A project directory written with a trailing slash is the same directory: the paths
  joined to it, the walk and the relative names do not change.\<close>

lemma join_slash: "b \<noteq> [] \<Longrightarrow> last b \<noteq> CHR ''/'' \<Longrightarrow> os_path_join (b @ ''/'') = os_path_join b"
  by (rule ext) (simp add: os_path_join_def)

lemma foldl_join_slash:
  "b \<noteq> [] \<Longrightarrow> last b \<noteq> CHR ''/'' \<Longrightarrow>
   os_path_join (foldl os_path_join (b @ ''/'') ks) = os_path_join (foldl os_path_join b ks)"
  by (cases ks) (simp_all add: join_slash)

lemma normpath_slash: "normpath (b @ ''/'') = normpath b"
  using split_sep_append_slash [of b "[]"] by (simp add: normpath_def step_def)

lemma relpath_slash: "os_path_relpath fp (b @ ''/'') = os_path_relpath fp b"
  by (simp add: os_path_relpath_def normpath_slash)

lemma zip_write_all_slash: "zip_write_all fs (b @ ''/'') fps = zip_write_all fs b fps"
  by (induction fps) (simp_all add: relpath_slash split: sum.splits)

lemma resolve_slash: "resolve fs b = Inr pp \<Longrightarrow> lookup fs pp = Some Dir \<Longrightarrow> resolve fs (b @ ''/'') = Inr pp"
  using split_sep_append_slash [of b "[]"] by (simp add: resolve_def walk_to_append step_def)

lemma zip_tree_slash:
  assumes "resolve fs b = Inr pp" "lookup fs pp = Some Dir" "b \<noteq> []" "last b \<noteq> CHR ''/''"
  shows "zip_tree fs (b @ ''/'') = zip_tree fs b"
  unfolding zip_tree_def os_walk_all [OF resolve_slash [OF assms(1,2)] assms(2)] os_walk_all [OF assms(1,2)]
  by (simp add: zip_write_all_slash foldl_join_slash [OF assms(3,4)] join_slash [OF assms(3,4)] comp_def)

lemma write_project_files_slash:
  "b \<noteq> [] \<Longrightarrow> last b \<noteq> CHR ''/'' \<Longrightarrow>
   write_project_files env fs (b @ ''/'') items = write_project_files env fs b items"
  by (induction items arbitrary: fs) (auto simp: join_slash Let_def split: prod.splits sum.splits)

subsection \<open>A fresh directory on a well-formed disk\<close>

lemma wf_disk_distinct: "wf_disk fs \<Longrightarrow> distinct (map fst fs)"
  by (simp add: wf_disk_def)

lemma wf_disk_parent: "wf_disk fs \<Longrightarrow> lookup fs q \<noteq> None \<Longrightarrow> lookup fs (butlast q) = Some Dir"
proof (cases "q = []")
  case True
  then show ?thesis by (simp add: lookup_def)
next
  case False
  assume wf: "wf_disk fs" and "lookup fs q \<noteq> None"
  with False obtain n where "(q, n) \<in> set fs" by (auto dest: lookup_Some_set)
  with wf show ?thesis by (auto simp: wf_disk_def list_all_iff)
qed

lemma wf_disk_ancestor: "wf_disk fs \<Longrightarrow> lookup fs q \<noteq> None \<Longrightarrow> prefix p q \<Longrightarrow> lookup fs p \<noteq> None"
proof (induction q rule: rev_induct)
  case Nil
  then show ?case by simp
next
  case (snoc x q)
  show ?case
  proof (cases "p = q @ [x]")
    case True
    with snoc.prems show ?thesis by simp
  next
    case False
    with snoc.prems(3) have p: "prefix p q" by (simp add: prefix_snoc)
    have "lookup fs q = Some Dir" using wf_disk_parent [OF snoc.prems(1,2)] by simp
    with snoc.IH [OF snoc.prems(1) _ p] show ?thesis by simp
  qed
qed

lemma nothing_under_fresh:
  "wf_disk fs \<Longrightarrow> lookup fs p = None \<Longrightarrow> prefix p q \<Longrightarrow> lookup fs q = None"
  using wf_disk_ancestor by blast

lemma os_mkdir_success:
  assumes "os_mkdir fs s = Inr fs'"
  shows "\<exists>p. resolve fs s = Inr p \<and> lookup fs p = None \<and> fs' = fs @ [(p, Dir)]"
  using assms by (auto simp: os_mkdir_def split: sum.splits option.splits)

lemma mkdtemp_loop_success:
  assumes "mkdtemp_loop fs dir names = (Inr out, fs')"
  shows "\<exists>p. resolve fs out = Inr p \<and> lookup fs p = None \<and> fs' = fs @ [(p, Dir)]"
  using assms
proof (induction names)
  case Nil
  then show ?case by simp
next
  case (Cons n names)
  show ?case
  proof (cases "os_mkdir fs (os_path_join dir n)")
    case (Inr fs1)
    with Cons.prems have "out = os_path_join dir n" "fs' = fs1" by auto
    with os_mkdir_success [OF Inr] show ?thesis by simp
  next
    case (Inl e)
    with Cons show ?thesis by (cases e) auto
  qed
qed

lemma walk_to_snoc_empty:
  assumes "walk_to fs cur (xs @ [[]]) = Inr p"
  shows "walk_to fs cur xs = Inr p"
proof -
  from assms obtain p' where a: "walk_to fs cur xs = Inr p'" and b: "walk_to fs p' [[]] = Inr p"
    by (auto simp: walk_to_append split: sum.splits)
  from b have "p = p'" by (auto simp: step_def split: option.splits node.splits)
  with a show ?thesis by simp
qed

lemma join_name_split:
  assumes "clean_name name"
  shows "\<exists>X. split_sep (os_path_join a name) = X @ [name] \<and>
             (\<forall>fs p. resolve fs a = Inr p \<longrightarrow> walk_to fs [] X = Inr p)"
proof -
  have n1: "take 1 name \<noteq> ''/''" using assms by (cases name) (auto simp: clean_name_def)
  have sn: "split_sep name = [name]" using assms by (simp add: split_sep_plain clean_name_def)
  show ?thesis
  proof (cases "a = []")
    case True
    have "\<forall>fs p. resolve fs [] = Inr p \<longrightarrow> walk_to fs [] [] = Inr p"
      by (auto simp: resolve_def step_def lookup_def)
    with True n1 sn show ?thesis by (auto simp: os_path_join_def)
  next
    case False
    show ?thesis
    proof (cases "last a = CHR ''/''")
      case True
      with False have a: "a = butlast a @ CHR ''/'' # []" by (metis append_butlast_last_id)
      have j: "os_path_join a name = butlast a @ CHR ''/'' # name"
        using True False n1 a by (simp add: os_path_join_def)
      have s: "split_sep a = split_sep (butlast a) @ [[]]"
        by (subst a) (simp add: split_sep_append_slash)
      have "\<forall>fs p. resolve fs a = Inr p \<longrightarrow> walk_to fs [] (split_sep (butlast a)) = Inr p"
        unfolding resolve_def s by (auto dest: walk_to_snoc_empty)
      then show ?thesis by (auto simp: j split_sep_append_slash sn)
    next
      case l: False
      with False n1 have "os_path_join a name = a @ CHR ''/'' # name" by (simp add: os_path_join_def)
      then show ?thesis by (auto simp: split_sep_append_slash sn resolve_def)
    qed
  qed
qed

lemma mkdtemp_success:
  assumes "mkdtemp env s = (Inr out, s1)"
  shows "\<exists>p. resolve (disk s) out = Inr p \<and> lookup (disk s) p = None \<and> s1 = s\<lparr>disk := disk s @ [(p, Dir)]\<rparr>"
proof -
  from assms obtain fs' where m: "mkdtemp_loop (disk s) (tempdir env) (tmp_names env) = (Inr out, fs')"
    and s1: "s1 = s\<lparr>disk := fs'\<rparr>"
    by (auto simp: mkdtemp_def split: prod.splits)
  from mkdtemp_loop_success [OF m] s1 show ?thesis by auto
qed

text \<open>From the fresh output directory to the state the loop starts in.\<close>

lemma project_dir_ready:
  assumes wf: "wf_disk fs0" and r: "resolve fs0 out = Inr po" and fresh: "lookup fs0 po = None"
      and name: "clean_name name"
      and mk: "os_makedirs (fs0 @ [(po, Dir)]) (os_path_join out name) = (Inr (), fs2)"
  shows "walk_to fs2 [] (split_sep (os_path_join out name)) = Inr (po @ [name])
       \<and> last (split_sep (os_path_join out name)) \<noteq> []
       \<and> project_inv env fs2 (po @ [name]) []
       \<and> distinct (map fst fs2)"
proof -
  let ?fs1 = "fs0 @ [(po, Dir)]"
  let ?dir = "os_path_join out name"
  from join_name_split [OF name, of out] obtain X where
    X: "split_sep ?dir = X @ [name]" and Xr: "\<And>fs p. resolve fs out = Inr p \<Longrightarrow> walk_to fs [] X = Inr p"
    by blast
  have l1: "\<And>q. lookup ?fs1 q = (if q = po then Some Dir else lookup fs0 q)"
    by (rule lookup_snoc [OF fresh])
  have dk1: "dirs_kept fs0 ?fs1" using l1 fresh by (auto simp: dirs_kept_def)
  have w1: "walk_to ?fs1 [] X = Inr po" by (rule Xr [OF resolve_mono [OF dk1 r]])
  have d1: "lookup ?fs1 po = Some Dir" by (simp add: l1)
  have cn: "list_all clean_name [name]" using name by simp
  have m: "makedirs_from ?fs1 po [name] = (Inr (), fs2)"
    using mk makedirs_from_skip [OF w1 d1, of "[name]"] by (simp add: os_makedirs_def X)
  have l2: "\<And>q. lookup fs2 q = (if prefix po q \<and> prefix q (po @ [name]) then Some Dir else lookup ?fs1 q)"
    by (rule makedirs_from_lookup [OF m cn])
  have dk2: "dirs_kept ?fs1 fs2" using m by (rule makedirs_from_dirs_kept)
  have w2: "walk_to fs2 [] X = Inr po" by (rule walk_to_mono [OF dk2 w1])
  have "walk_to fs2 po [name] = Inr (po @ [name])"
    using name by (simp add: l2)
  with w2 have a: "walk_to fs2 [] (split_sep ?dir) = Inr (po @ [name])"
    by (simp add: X walk_to_append)
  have b: "last (split_sep ?dir) \<noteq> []" using name by (simp add: X clean_name_def)
  have none: "lookup fs2 q = None" if q: "strict_prefix (po @ [name]) q" for q
  proof -
    have p: "prefix po q" "q \<noteq> po" "\<not> prefix q (po @ [name])"
      using q by (auto simp: strict_prefix_def prefix_def)
    then have "lookup fs2 q = lookup fs0 q" by (simp add: l2 l1)
    also have "\<dots> = None" by (rule nothing_under_fresh [OF wf fresh p(1)])
    finally show ?thesis .
  qed
  have c: "project_inv env fs2 (po @ [name]) []"
    using none by (auto simp: project_inv_def l2)
  have "distinct (map fst ?fs1)"
    using wf_disk_distinct [OF wf] fresh by (auto simp: lookup_def map_of_eq_None_iff split: if_splits)
  then have d: "distinct (map fst fs2)" by (rule makedirs_from_distinct [OF m])
  from a b c d show ?thesis by blast
qed

text \<open>The project name is the last component of the URL: it has no slash. When it is
  empty or \<^verbatim>\<open>.\<close>, the project directory is the output directory itself.\<close>

lemma remove_dotgit_subset: "set (remove_dotgit w) \<subseteq> set w"
  by (induction w rule: remove_dotgit.induct) (auto dest: in_set_dropD)

lemma project_name_no_slash: "CHR ''/'' \<notin> set (remove_dotgit (last (split_sep url)))"
proof -
  have "last (split_sep url) \<in> set (split_sep url)" by simp
  then have "CHR ''/'' \<notin> set (last (split_sep url))" by (rule split_sep_no_slash)
  with remove_dotgit_subset show ?thesis by blast
qed

lemma name_cases: "CHR ''/'' \<notin> set name \<Longrightarrow> name \<noteq> ''..'' \<Longrightarrow> clean_name name \<or> name = [] \<or> name = ''.''"
  by (auto simp: clean_name_def)

lemma fresh_dir_string:
  assumes r: "resolve fs0 out = Inr po" and fresh: "lookup fs0 po = None"
  shows "last (split_sep out) \<noteq> []"
proof
  assume e: "last (split_sep out) = []"
  have "split_sep out = butlast (split_sep out) @ [[]]"
    using append_butlast_last_id [of "split_sep out"] e by simp
  with r have w: "walk_to fs0 [] (butlast (split_sep out) @ [[]]) = Inr po"
    by (simp add: resolve_def)
  then obtain p' where a: "walk_to fs0 [] (butlast (split_sep out)) = Inr p'"
    and b: "walk_to fs0 p' [[]] = Inr po"
    by (auto simp: walk_to_append split: sum.splits)
  from b have "lookup fs0 po = Some Dir"
    by (auto simp: step_def split: option.splits node.splits)
  with fresh show False by simp
qed

lemma project_dir_ready_same:
  assumes wf: "wf_disk fs0" and r: "resolve fs0 out = Inr po" and fresh: "lookup fs0 po = None"
      and nm: "name = [] \<or> name = ''.''"
      and mk: "os_makedirs (fs0 @ [(po, Dir)]) (os_path_join out name) = (Inr (), fs2)"
  shows "out \<noteq> [] \<and> last out \<noteq> CHR ''/''
       \<and> walk_to fs2 [] (split_sep out) = Inr po \<and> last (split_sep out) \<noteq> []
       \<and> walk_to fs2 [] (split_sep (out @ ''/.'')) = Inr po
       \<and> project_inv env fs2 po [] \<and> distinct (map fst fs2)"
proof -
  let ?fs1 = "fs0 @ [(po, Dir)]"
  have L: "last (split_sep out) \<noteq> []" by (rule fresh_dir_string [OF r fresh])
  then have o1: "out \<noteq> []" by auto
  with L have o: "out \<noteq> []" "last out \<noteq> CHR ''/''"
    using last_split_sep_slash [of out] by auto
  have l1: "\<And>q. lookup ?fs1 q = (if q = po then Some Dir else lookup fs0 q)"
    by (rule lookup_snoc [OF fresh])
  have dk1: "dirs_kept fs0 ?fs1" using l1 fresh by (auto simp: dirs_kept_def)
  have w1: "walk_to ?fs1 [] (split_sep out) = Inr po"
    using resolve_mono [OF dk1 r] by (simp add: resolve_def)
  have d1: "lookup ?fs1 po = Some Dir" by (simp add: l1)
  obtain c where c: "c = [] \<or> c = ''.''" and sp: "split_sep (os_path_join out name) = split_sep out @ [c]"
    using nm o split_sep_append_slash [of out "[]"] split_sep_append_slash [of out "''.''"]
    by (auto simp: os_path_join_def)
  have st: "step po c = po" using c by (auto simp: step_def)
  have "makedirs_from ?fs1 [] (split_sep out @ [c]) = makedirs_from ?fs1 po [c]"
    by (rule makedirs_from_skip [OF w1 d1])
  also have "\<dots> = (Inr (), ?fs1)" using d1 st by (simp add: ensure_dir_def)
  finally have fs2: "fs2 = ?fs1" using mk by (simp add: os_makedirs_def sp)
  have w2: "walk_to ?fs1 [] (split_sep (out @ ''/.'')) = Inr po"
    using split_sep_append_slash [of out "''.''"] w1 d1 by (simp add: walk_to_append step_def)
  have none: "lookup ?fs1 q = None" if q: "strict_prefix po q" for q
  proof -
    have p: "prefix po q" "q \<noteq> po" using q by (auto simp: strict_prefix_def)
    then have "lookup ?fs1 q = lookup fs0 q" by (simp add: l1)
    also have "\<dots> = None" by (rule nothing_under_fresh [OF wf fresh p(1)])
    finally show ?thesis .
  qed
  have inv: "project_inv env ?fs1 po []" using none d1 by (auto simp: project_inv_def)
  have d: "distinct (map fst ?fs1)"
    using wf_disk_distinct [OF wf] fresh by (auto simp: lookup_def map_of_eq_None_iff split: if_splits)
  from o w1 L w2 inv d show ?thesis unfolding fs2 by blast
qed

lemma archive_of_written:
  assumes wr: "write_project_files env fs2 dir items = (Inr (), fs3)"
      and a: "walk_to fs2 [] (split_sep dir) = Inr pp" and l: "last (split_sep dir) \<noteq> []"
      and inv: "project_inv env fs2 pp []" and d: "distinct (map fst fs2)"
      and keys: "list_all clean_key (map fst items)" "distinct (map fst items)"
      and zt: "zip_tree fs3 dir = Inr zb"
  shows "set zb = (\<lambda>(k, v). (k, file_text env v)) ` set items \<and> distinct (map fst zb)"
proof -
  from write_loop_inv [OF wr a l keys(1) _ inv d] keys(2)
  have inv3: "project_inv env fs3 pp items" and d3: "distinct (map fst fs3)"
    by auto
  have a3: "walk_to fs3 [] (split_sep dir) = Inr pp"
    by (rule walk_to_mono [OF write_project_files_dirs_kept [OF wr] a])
  from zip_tree_project [OF a3 l inv3 d3 keys(1)] zt
    zip_tree_project_distinct [OF a3 l inv3 d3 keys zt]
  show ?thesis by auto
qed

lemma build_response_archive:
  assumes ok: "build_response env s clone name (JObj items) = (Inr r, s')"
      and wf: "wf_disk (disk s)"
      and name: "CHR ''/'' \<notin> set name" "name \<noteq> ''..''"
      and keys: "list_all clean_key (map fst items)" "distinct (map fst items)"
  shows "set (body r) = (\<lambda>(k, v). (k, file_text env v)) ` set items \<and> distinct (map fst (body r))"
proof -
  from ok obtain out s1 where mt: "mkdtemp env s = (Inr out, s1)"
    by (auto simp: build_response_def split: prod.splits sum.splits)
  from mkdtemp_success [OF mt] obtain po where
    r: "resolve (disk s) out = Inr po" and fresh: "lookup (disk s) po = None"
    and s1: "s1 = s\<lparr>disk := disk s @ [(po, Dir)]\<rparr>"
    by blast
  let ?dir = "os_path_join out name"
  from ok mt obtain fs2 where mk: "os_makedirs (disk s1) ?dir = (Inr (), fs2)"
    by (auto simp: build_response_def Let_def split: prod.splits sum.splits)
  from ok mt mk obtain fs3 where wr: "write_project_files env fs2 ?dir items = (Inr (), fs3)"
    by (auto simp: build_response_def Let_def split: prod.splits sum.splits)
  from ok mt mk wr have zt: "zip_tree fs3 ?dir = Inr (body r)"
    by (auto simp: build_response_def Let_def split: prod.splits sum.splits)
  note mk' = mk [unfolded s1, simplified]
  from name_cases [OF name] consider (plain) "clean_name name" | (empty) "name = []" | (dot) "name = ''.''"
    by blast
  then show ?thesis
  proof cases
    case plain
    from project_dir_ready [OF wf r fresh plain mk', of env]
    have a: "walk_to fs2 [] (split_sep ?dir) = Inr (po @ [name])"
      and l: "last (split_sep ?dir) \<noteq> []"
      and inv: "project_inv env fs2 (po @ [name]) []"
      and d: "distinct (map fst fs2)"
      by blast+
    show ?thesis by (rule archive_of_written [OF wr a l inv d keys zt])
  next
    case empty
    from project_dir_ready_same [OF wf r fresh _ mk', of env] empty
    have o: "out \<noteq> []" "last out \<noteq> CHR ''/''"
      and a: "walk_to fs2 [] (split_sep out) = Inr po"
      and l: "last (split_sep out) \<noteq> []"
      and inv: "project_inv env fs2 po []"
      and d: "distinct (map fst fs2)"
      by blast+
    have e: "?dir = out @ ''/''" using empty o by (simp add: os_path_join_def)
    have wr': "write_project_files env fs2 out items = (Inr (), fs3)"
      using wr unfolding e write_project_files_slash [OF o] .
    have a3: "resolve fs3 out = Inr po"
      unfolding resolve_def by (rule walk_to_mono [OF write_project_files_dirs_kept [OF wr'] a])
    have d3: "lookup fs3 po = Some Dir"
      using write_project_files_dirs_kept [OF wr'] inv by (auto simp: dirs_kept_def project_inv_def)
    have zt': "zip_tree fs3 out = Inr (body r)"
      using zt unfolding e zip_tree_slash [OF a3 d3 o] .
    show ?thesis by (rule archive_of_written [OF wr' a l inv d keys zt'])
  next
    case dot
    from project_dir_ready_same [OF wf r fresh _ mk', of env] dot
    have o: "out \<noteq> []" "last out \<noteq> CHR ''/''"
      and a: "walk_to fs2 [] (split_sep (out @ ''/.'')) = Inr po"
      and inv: "project_inv env fs2 po []"
      and d: "distinct (map fst fs2)"
      by blast+
    have e: "?dir = out @ ''/.''" using dot o by (simp add: os_path_join_def)
    have l: "last (split_sep (out @ ''/.'')) \<noteq> []"
      using split_sep_append_slash [of out "''.''"] by simp
    show ?thesis by (rule archive_of_written [OF wr [unfolded e] a l inv d keys zt [unfolded e]])
  qed
qed

subsection \<open>The disk stays well-formed up to the mapping\<close>

lemma wf_diskI:
  assumes "distinct (map fst fs)"
      and "\<And>q n. (q, n) \<in> set fs \<Longrightarrow> q \<noteq> [] \<and> lookup fs (butlast q) = Some Dir"
  shows "wf_disk fs"
  using assms by (auto simp: wf_disk_def list_all_iff)

lemma wf_disk_entry: "wf_disk fs \<Longrightarrow> (q, n) \<in> set fs \<Longrightarrow> q \<noteq> [] \<and> lookup fs (butlast q) = Some Dir"
  by (auto simp: wf_disk_def list_all_iff)

lemma lookup_in_keys: "lookup fs q = None \<Longrightarrow> q \<notin> fst ` set fs"
  by (auto simp: lookup_def map_of_eq_None_iff split: if_splits)

text \<open>The place a path string leads to, when it is no directory yet, lies in a directory.\<close>

lemma walk_to_parent:
  assumes wf: "wf_disk fs" and w: "walk_to fs cur cs = Inr p" and c: "lookup fs cur = Some Dir"
      and nd: "lookup fs p \<noteq> Some Dir"
  shows "lookup fs (butlast p) = Some Dir"
  using w c
proof (induction cs arbitrary: cur)
  case Nil
  with nd show ?case by simp
next
  case (Cons x xs)
  from Cons.prems have w': "walk_to fs (step cur x) xs = Inr p" by simp
  show ?case
  proof (cases "lookup fs (step cur x) = Some Dir")
    case True
    then show ?thesis by (rule Cons.IH [OF w'])
  next
    case False
    have "xs = []"
    proof (cases xs)
      case Nil
      then show ?thesis by simp
    next
      case (Cons y ys)
      with w' False show ?thesis by (auto split: option.splits node.splits)
    qed
    with w' have p: "p = step cur x" by simp
    have "step cur x = cur @ [x]"
    proof -
      have "step cur x \<noteq> cur" using False Cons.prems(2) by auto
      moreover have "step cur x \<noteq> butlast cur"
        using False wf_disk_parent [OF wf, of cur] Cons.prems(2) by auto
      ultimately show ?thesis by (auto simp: step_def split: if_splits)
    qed
    with p Cons.prems(2) show ?thesis by simp
  qed
qed

lemma resolve_parent:
  "wf_disk fs \<Longrightarrow> resolve fs s = Inr p \<Longrightarrow> lookup fs p \<noteq> Some Dir \<Longrightarrow> lookup fs (butlast p) = Some Dir"
  unfolding resolve_def by (rule walk_to_parent) (auto simp: lookup_def)

lemma snoc_wf:
  assumes wf: "wf_disk fs" and fresh: "lookup fs p = None" and par: "lookup fs (butlast p) = Some Dir"
  shows "wf_disk (fs @ [(p, n)])"
proof (rule wf_diskI)
  show "distinct (map fst (fs @ [(p, n)]))"
    using wf_disk_distinct [OF wf] lookup_in_keys [OF fresh] by simp
next
  fix q m assume "(q, m) \<in> set (fs @ [(p, n)])"
  then consider "(q, m) \<in> set fs" | "q = p" by auto
  then show "q \<noteq> [] \<and> lookup (fs @ [(p, n)]) (butlast q) = Some Dir"
  proof cases
    case 1
    with wf_disk_entry [OF wf 1] fresh show ?thesis by (auto simp: lookup_snoc)
  next
    case 2
    with fresh par show ?thesis by (auto simp: lookup_snoc dest: lookup_None_nonempty)
  qed
qed

lemma update_set_other: "(q, m) \<in> set (AList.update p v fs) \<Longrightarrow> q \<noteq> p \<Longrightarrow> (q, m) \<in> set fs"
  by (induction fs) (auto split: if_splits)

lemma update_wf:
  assumes wf: "wf_disk fs" and nd: "lookup fs p \<noteq> Some Dir" and par: "lookup fs (butlast p) = Some Dir"
  shows "wf_disk (AList.update p (File d) fs)"
proof (rule wf_diskI)
  show "distinct (map fst (AList.update p (File d) fs))"
    using wf_disk_distinct [OF wf] by (simp add: distinct_update)
next
  have pne: "p \<noteq> []" using nd by (auto simp: lookup_def)
  fix q m assume "(q, m) \<in> set (AList.update p (File d) fs)"
  then have "(q, m) \<in> set fs \<or> q = p"
    by (auto dest: update_set_other)
  then show "q \<noteq> [] \<and> lookup (AList.update p (File d) fs) (butlast q) = Some Dir"
  proof
    assume "(q, m) \<in> set fs"
    from wf_disk_entry [OF wf this] nd pne show ?thesis by (auto simp: lookup_update)
  next
    assume "q = p"
    with par nd pne show ?thesis by (auto simp: lookup_update)
  qed
qed

lemma open_write_wf: "wf_disk fs \<Longrightarrow> open_write fs s d = Inr fs' \<Longrightarrow> wf_disk fs'"
  by (auto simp: open_write_def split: sum.splits option.splits node.splits
      intro!: update_wf resolve_parent)

lemma map_of_under: "map_of (map (\<lambda>(q, n). (p @ q, n)) tree) (p @ b) = map_of tree b"
  by (induction tree) auto

lemma lookup_append_old: "lookup fs q \<noteq> None \<Longrightarrow> lookup (fs @ xs) q = lookup fs q"
  by (auto simp: lookup_def map_add_def split: option.splits)

lemma lookup_append_new: "lookup fs q = None \<Longrightarrow> lookup (fs @ xs) q = map_of xs q"
  by (auto simp: lookup_def map_add_def split: option.splits if_splits)

lemma strict_prefix_append [simp]: "strict_prefix p (p @ q) \<longleftrightarrow> q \<noteq> []"
  by (auto simp: strict_prefix_def)

lemma checkout_wf:
  assumes wf: "wf_disk fs" and tree: "wf_tree tree" and dir: "lookup fs p = Some Dir"
      and empty: "\<And>q. strict_prefix p q \<Longrightarrow> lookup fs q = None"
  shows "wf_disk (fs @ map (\<lambda>(q, n). (p @ q, n)) tree)"
proof (rule wf_diskI)
  let ?new = "map (\<lambda>(q, n). (p @ q, n)) tree"
  have tne: "\<And>q n. (q, n) \<in> set tree \<Longrightarrow> q \<noteq> []"
    using tree by (auto simp: wf_tree_def list_all_iff)
  have keys: "map fst ?new = map ((@) p) (map fst tree)" by (induction tree) auto
  have dn: "distinct (map fst ?new)"
    unfolding keys using tree by (simp add: wf_tree_def distinct_map inj_on_def)
  have dj: "set (map fst fs) \<inter> set (map fst ?new) = {}"
  proof -
    have "p @ q \<notin> fst ` set fs" if "(q, n) \<in> set tree" for q n
    proof -
      have "strict_prefix p (p @ q)" using tne [OF that] by simp
      then show ?thesis by (intro lookup_in_keys empty)
    qed
    then show ?thesis unfolding keys by force
  qed
  show "distinct (map fst (fs @ ?new))"
    unfolding map_append distinct_append using wf_disk_distinct [OF wf] dn dj by blast
next
  let ?new = "map (\<lambda>(q, n). (p @ q, n)) tree"
  fix x m assume "(x, m) \<in> set (fs @ ?new)"
  then consider "(x, m) \<in> set fs" | q where "(q, m) \<in> set tree" "x = p @ q" by auto
  then show "x \<noteq> [] \<and> lookup (fs @ ?new) (butlast x) = Some Dir"
  proof cases
    case 1
    from wf_disk_entry [OF wf 1] show ?thesis by (simp add: lookup_append_old)
  next
    case 2
    from tree 2(1) have q: "q \<noteq> []" "butlast q = [] \<or> map_of tree (butlast q) = Some Dir"
      by (auto simp: wf_tree_def list_all_iff)
    show ?thesis
    proof (cases "butlast q = []")
      case True
      with q(1) 2(2) dir show ?thesis by (simp add: butlast_append lookup_append_old)
    next
      case False
      then have "strict_prefix p (p @ butlast q)" by simp
      then have "lookup fs (p @ butlast q) = None" by (rule empty)
      then have "lookup (fs @ ?new) (p @ butlast q) = map_of tree (butlast q)"
        by (simp add: lookup_append_new map_of_under)
      with q False 2(2) show ?thesis by (simp add: butlast_append)
    qed
  qed
qed

lemma run_git_clone_wf:
  assumes wf: "wf_disk fs0" and r: "resolve fs0 out = Inr p" and fresh: "lookup fs0 p = None"
      and tree: "\<And>t. git_clone env url = Inr t \<Longrightarrow> wf_tree t"
      and run: "run_git_clone env s (JStr url) out = (Inr u, s')"
      and disk: "disk s = fs0 @ [(p, Dir)]"
  shows "wf_disk (disk s')"
proof -
  have l1: "\<And>q. lookup (disk s) q = (if q = p then Some Dir else lookup fs0 q)"
    unfolding disk by (rule lookup_snoc [OF fresh])
  have dk: "dirs_kept fs0 (disk s)" using l1 fresh by (auto simp: dirs_kept_def)
  have r1: "resolve (disk s) out = Inr p" by (rule resolve_mono [OF dk r])
  from run r1 obtain t where t: "git_clone env url = Inr t"
    and s': "disk s' = disk s @ map (\<lambda>(q, n). (p @ q, n)) t"
    by (auto simp: run_git_clone_def split: sum.splits)
  have wf1: "wf_disk (disk s)"
    unfolding disk using wf fresh resolve_parent [OF wf r] by (intro snoc_wf) auto
  have "lookup (disk s) q = None" if "strict_prefix p q" for q
  proof -
    from that have "prefix p q" "q \<noteq> p" by auto
    with nothing_under_fresh [OF wf fresh] show ?thesis by (simp add: l1)
  qed
  then show ?thesis
    unfolding s' using wf1 tree [OF t] by (intro checkout_wf) (auto simp: l1)
qed

lemma clone_and_zip_repo_wf:
  assumes wf: "wf_disk (disk s)"
      and tree: "\<And>t. git_clone env url = Inr t \<Longrightarrow> wf_tree t"
      and ok: "clone_and_zip_repo env s (JStr url) = (Some paths, s')"
  shows "wf_disk (disk s')"
proof -
  from ok have b: "clone_and_zip_body env s (JStr url) = (Inr paths, s')"
    by (auto simp: clone_and_zip_repo_def split: prod.splits sum.splits)
  then obtain out s1 where mt: "mkdtemp env s = (Inr out, s1)"
    by (auto simp: clone_and_zip_body_def split: prod.splits sum.splits)
  from mkdtemp_success [OF mt] obtain p where
    r: "resolve (disk s) out = Inr p" and fresh: "lookup (disk s) p = None"
    and s1: "s1 = s\<lparr>disk := disk s @ [(p, Dir)]\<rparr>"
    by blast
  let ?s2 = "print s1 (''Cloning repository from '' @ py_str env (JStr url) @ '' to '' @ out @ ''...'')"
  from b mt obtain u s3 where g: "run_git_clone env ?s2 (JStr url) out = (Inr u, s3)"
    by (auto simp: clone_and_zip_body_def Let_def split: prod.splits sum.splits)
  have wf3: "wf_disk (disk s3)"
    by (rule run_git_clone_wf [OF wf r fresh tree g]) (simp_all add: s1 print_def)
  from b mt g obtain fs5 fs6 es where
    o1: "open_write (disk s3) (os_path_join (tempdir env) ''cloned_repo.zip'') [] = Inr fs5"
    and o2: "open_write fs5 (os_path_join (tempdir env) ''cloned_repo.zip'') (zip_encode env es) = Inr fs6"
    and d: "disk s' = fs6"
    by (auto simp: clone_and_zip_body_def Let_def print_def split: prod.splits sum.splits)
  from open_write_wf [OF open_write_wf [OF wf3 o1] o2] d show ?thesis by simp
qed

lemma collect_results_disk [simp]: "disk (collect_results s rs) = disk s"
  by (induction s rs rule: collect_results.induct) (auto simp: print_def)

lemma analyze_asp_project_disk [simp]: "disk (snd (analyze_asp_project env s p)) = disk s"
proof -
  obtain rs s1 ps where r: "run_tasks env s empty_structure (submitted_files (disk s) p) = (rs, s1, ps)"
    by (cases "run_tasks env s empty_structure (submitted_files (disk s) p)") auto
  with run_tasks_disk [OF r] show ?thesis by (simp add: analyze_asp_project_def)
qed

lemma generate_disk [simp]: "disk (snd (generate_mvc_with_openai env s ps n)) = disk s"
  by (simp add: generate_mvc_with_openai_def llm_chain_invoke_def print_def Let_def
      split: sum.splits exn.splits prod.splits)

lemma clone_analyze_generate_wf:
  assumes wf: "wf_disk (disk s)"
      and tree: "\<And>t. git_clone env url = Inr t \<Longrightarrow> wf_tree t"
      and ok: "clone_analyze_generate env s (JStr url) = (Inr (clone, name, mvc), s3)"
  shows "wf_disk (disk s3) \<and> name = remove_dotgit (last (split_sep url))"
proof -
  from ok obtain zp s1 where c: "clone_and_zip_repo env s (JStr url) = (Some (zp, clone), s1)"
    by (auto simp: clone_analyze_generate_def Let_def split: prod.splits option.splits if_splits sum.splits)
  have wf1: "wf_disk (disk s1)" by (rule clone_and_zip_repo_wf [OF wf tree c])
  obtain ps s2 where a: "analyze_asp_project env s1 clone = (ps, s2)"
    by (cases "analyze_asp_project env s1 clone")
  have d2: "disk s2 = disk s1" using analyze_asp_project_disk [of env s1 clone] a by simp
  from ok c a have g: "generate_mvc_with_openai env s2 ps (remove_dotgit (last (split_sep url))) = (Inr mvc, s3)"
    and n: "name = remove_dotgit (last (split_sep url))"
    by (auto simp: clone_analyze_generate_def Let_def split: prod.splits option.splits if_splits sum.splits)
  have "disk s3 = disk s2" using generate_disk [of env s2 ps "remove_dotgit (last (split_sep url))"] g by simp
  with wf1 d2 n show ?thesis by simp
qed

subsection \<open>Cleaning up\<close>

lemma prefix_iff_take: "prefix p q \<longleftrightarrow> take (length p) q = p"
  by (metis append_eq_conv_conj prefix_def)

lemma map_of_filter_key:
  "map_of (filter (\<lambda>(q, n). P q) fs) k = (if P k then map_of fs k else None)"
  by (induction fs) auto

lemma rmtree_lookup:
  assumes "rmtree fs s = Inr fs'" and "resolve fs s = Inr p" and "lookup fs p = Some Dir" and "p \<noteq> []"
  shows "lookup fs' q = (if prefix p q then None else lookup fs q)"
proof -
  from assms have fs': "fs' = filter (\<lambda>(q, n). take (length p) q \<noteq> p) fs"
    by (simp add: rmtree_def)
  show ?thesis
  proof (cases "q = []")
    case True
    with assms(4) show ?thesis by (simp add: lookup_def)
  next
    case False
    then show ?thesis
      unfolding fs' by (simp add: lookup_def map_of_filter_key prefix_iff_take)
  qed
qed

lemma not_exists: "resolve fs s = Inr p \<Longrightarrow> lookup fs' p = None \<Longrightarrow> \<not> os_path_exists fs' s"
  by (auto simp: os_path_exists_def resolve_def split: sum.splits dest!: walk_to_result)

lemma clean_up_removes:
  assumes c: "clean_up fs clone out = Inr fs'"
      and pc: "resolve fs clone = Inr pc" "lookup fs pc = Some Dir" "pc \<noteq> []"
      and po: "resolve fs out = Inr po" "lookup fs po = Some Dir" "po \<noteq> []"
  shows "\<not> os_path_exists fs' clone \<and> \<not> os_path_exists fs' out"
proof -
  have ex: "os_path_exists fs clone" using pc by (simp add: os_path_exists_def)
  with c obtain fs1 where r1: "rmtree fs clone = Inr fs1" and r2: "rmtree fs1 out = Inr fs'"
    by (auto simp: clean_up_def split: sum.splits)
  have l1: "\<And>q. lookup fs1 q = (if prefix pc q then None else lookup fs q)"
    by (rule rmtree_lookup [OF r1 pc])
  from r2 obtain po' where ro: "resolve fs1 out = Inr po'"
    by (auto simp: rmtree_def split: sum.splits)
  have "po' = po" using ro po(1) by (auto simp: resolve_def dest!: walk_to_result)
  with ro have ro1: "resolve fs1 out = Inr po" by simp
  have d1: "lookup fs1 po = Some Dir"
    using r2 ro1 l1 [of po] po(2) by (auto simp: rmtree_def split: if_splits)
  have l2: "\<And>q. lookup fs' q = (if prefix po q then None else lookup fs1 q)"
    by (rule rmtree_lookup [OF r2 ro1 d1 po(3)])
  have "lookup fs' pc = None" by (simp add: l2 l1)
  moreover have "lookup fs' po = None" by (simp add: l2)
  ultimately show ?thesis using not_exists [OF pc(1)] not_exists [OF po(1)] by blast
qed

lemma snoc_dirs_kept: "dirs_kept fs (fs @ xs)"
  by (auto simp: dirs_kept_def lookup_append_old)

lemma mkdtemp_dir:
  assumes "mkdtemp env s = (Inr out, s1)"
  shows "\<exists>po. resolve (disk s1) out = Inr po \<and> lookup (disk s1) po = Some Dir \<and> po \<noteq> []
              \<and> dirs_kept (disk s) (disk s1)"
proof -
  from mkdtemp_success [OF assms] obtain p where
    r: "resolve (disk s) out = Inr p" and fresh: "lookup (disk s) p = None"
    and s1: "s1 = s\<lparr>disk := disk s @ [(p, Dir)]\<rparr>"
    by blast
  have dk: "dirs_kept (disk s) (disk s1)" unfolding s1 by (simp add: snoc_dirs_kept)
  have "lookup (disk s1) p = Some Dir" unfolding s1 using fresh by (simp add: lookup_snoc)
  with resolve_mono [OF dk r] lookup_None_nonempty [OF fresh] dk show ?thesis by blast
qed

lemma run_git_clone_dirs_kept: "run_git_clone env s url out = (r, s') \<Longrightarrow> dirs_kept (disk s) (disk s')"
  by (auto simp: run_git_clone_def snoc_dirs_kept split: json.splits sum.splits)

lemma clone_dir_is_dir:
  assumes "clone_and_zip_repo env s url = (Some (zp, clone), s')"
  shows "\<exists>pc. resolve (disk s') clone = Inr pc \<and> lookup (disk s') pc = Some Dir \<and> pc \<noteq> []"
proof -
  from assms have b: "clone_and_zip_body env s url = (Inr (zp, clone), s')"
    by (auto simp: clone_and_zip_repo_def split: prod.splits sum.splits)
  then obtain s1 where mt: "mkdtemp env s = (Inr clone, s1)"
    by (auto simp: clone_and_zip_body_def Let_def split: prod.splits sum.splits)
  from mkdtemp_dir [OF mt] obtain pc where
    pc: "resolve (disk s1) clone = Inr pc" "lookup (disk s1) pc = Some Dir" "pc \<noteq> []"
    by blast
  let ?s2 = "print s1 (''Cloning repository from '' @ py_str env url @ '' to '' @ clone @ ''...'')"
  from b mt obtain u s3 where g: "run_git_clone env ?s2 url clone = (Inr u, s3)"
    by (auto simp: clone_and_zip_body_def Let_def split: prod.splits sum.splits)
  from b mt g obtain fs5 fs6 es where
    o1: "open_write (disk s3) (os_path_join (tempdir env) ''cloned_repo.zip'') [] = Inr fs5"
    and o2: "open_write fs5 (os_path_join (tempdir env) ''cloned_repo.zip'') (zip_encode env es) = Inr fs6"
    and d: "disk s' = fs6"
    by (auto simp: clone_and_zip_body_def Let_def print_def split: prod.splits sum.splits)
  have "dirs_kept (disk s1) (disk s3)" using run_git_clone_dirs_kept [OF g] by (simp add: print_def)
  then have dk: "dirs_kept (disk s1) (disk s')"
    unfolding d using open_write_dirs_kept [OF o1] open_write_dirs_kept [OF o2]
    by (blast intro: dirs_kept_trans)
  have "lookup (disk s') pc = Some Dir" using dk pc(2) by (simp add: dirs_kept_def)
  with resolve_mono [OF dk pc(1)] pc(3) show ?thesis by blast
qed

lemma save_zip_dirs_kept:
  "save_zip_to_downloads env s dir zn = (Inr u, s') \<Longrightarrow> dirs_kept (disk s) (disk s')"
  by (auto simp: save_zip_to_downloads_def Let_def print_def split: sum.splits dest: open_write_dirs_kept)

lemma build_response_cleans:
  assumes ok: "build_response env s clone name mvc = (Inr r, s')"
      and pc: "resolve (disk s) clone = Inr pc" "lookup (disk s) pc = Some Dir" "pc \<noteq> []"
  shows "\<exists>out s1. mkdtemp env s = (Inr out, s1)
           \<and> \<not> os_path_exists (disk s') clone \<and> \<not> os_path_exists (disk s') out
           \<and> (\<exists>fs. clean_up fs clone out = Inr (disk s'))"
proof -
  from ok obtain out s1 where mt: "mkdtemp env s = (Inr out, s1)"
    by (auto simp: build_response_def split: prod.splits sum.splits)
  from mkdtemp_dir [OF mt] obtain po where
    po: "resolve (disk s1) out = Inr po" "lookup (disk s1) po = Some Dir" "po \<noteq> []"
    and dk1: "dirs_kept (disk s) (disk s1)"
    by blast
  let ?dir = "os_path_join out name"
  from ok mt obtain fs2 where mk: "os_makedirs (disk s1) ?dir = (Inr (), fs2)"
    by (auto simp: build_response_def Let_def split: prod.splits sum.splits)
  from ok mt mk obtain items where items: "mvc = JObj items"
    by (cases mvc) (auto simp: build_response_def Let_def split: prod.splits sum.splits)
  from ok mt mk items obtain fs3 where wr: "write_project_files env fs2 ?dir items = (Inr (), fs3)"
    by (auto simp: build_response_def Let_def split: prod.splits sum.splits)
  from ok mt mk items wr obtain zb s4 where
    sv: "save_zip_to_downloads env (s1\<lparr>disk := fs3\<rparr>) ?dir (name @ ''.zip'') = (Inr (), s4)"
    by (auto simp: build_response_def Let_def split: prod.splits sum.splits)
  from ok mt mk items wr sv have cu: "clean_up (disk s4) clone out = Inr (disk s')"
    by (auto simp: build_response_def Let_def split: prod.splits sum.splits)
  have dk2: "dirs_kept (disk s1) fs2" using mk unfolding os_makedirs_def by (rule makedirs_from_dirs_kept)
  have dk3: "dirs_kept fs2 fs3" using wr by (rule write_project_files_dirs_kept)
  have dk4: "dirs_kept fs3 (disk s4)" using save_zip_dirs_kept [OF sv] by simp
  have a: "dirs_kept (disk s1) (disk s4)" using dk2 dk3 dk4 by (blast intro: dirs_kept_trans)
  have b: "dirs_kept (disk s) (disk s4)" using dk1 a by (rule dirs_kept_trans)
  have pc4: "resolve (disk s4) clone = Inr pc" "lookup (disk s4) pc = Some Dir"
    using resolve_mono [OF b pc(1)] b pc(2) by (auto simp: dirs_kept_def)
  have po4: "resolve (disk s4) out = Inr po" "lookup (disk s4) po = Some Dir"
    using resolve_mono [OF a po(1)] a po(2) by (auto simp: dirs_kept_def)
  from clean_up_removes [OF cu pc4 pc(3) po4 po(3)] mt cu show ?thesis by blast
qed

section \<open>The archive, the empty mapping and the temporary directories\<close>

text \<open>
  C1, as amended. For every request that succeeds, on a well-formed disk and a well-formed
  clone: when the project name is not \<^verbatim>\<open>..\<close> and the keys of the mapping that the
  generation step produced are distinct relative paths in normal form (plain names
  separated by single slashes), the entries of the archive in the response are exactly
  the keys of the mapping, each once and with the text written for its value (a string as
  it is, a dict as \<^verbatim>\<open>json.dumps\<close> prints it, anything else as \<^verbatim>\<open>str\<close> prints it), and there
  are no other entries.
\<close>

theorem archive_is_mapping:
  assumes "fst (process_github env s (JObj d)) = Inr r"
      and "dict_get d ''githubUrl'' JNull = JStr url"
      and "fst (clone_analyze_generate env s (JStr url)) = Inr (clone, name, JObj items)"
      and "wf_disk (disk s)"
      and "case git_clone env url of Inr t \<Rightarrow> wf_tree t | Inl e \<Rightarrow> True"
      and "name \<noteq> ''..''"
      and "list_all clean_key (map fst items)"
      and "distinct (map fst items)"
  shows "set (body r) = (\<lambda>(k, v). (k, file_text env v)) ` set items \<and> distinct (map fst (body r))"
proof -
  obtain s3 where g: "clone_analyze_generate env s (JStr url) = (Inr (clone, name, JObj items), s3)"
    using assms(3) by (cases "clone_analyze_generate env s (JStr url)") auto
  have t: "\<And>t. git_clone env url = Inr t \<Longrightarrow> wf_tree t" using assms(5) by simp
  have wf3: "wf_disk (disk s3)" and n: "name = remove_dotgit (last (split_sep url))"
    using clone_analyze_generate_wf [OF assms(4) t g] by simp_all
  have ns: "CHR ''/'' \<notin> set name" unfolding n by (rule project_name_no_slash)
  have tr: "truthy (JStr url)" using assms(1,2) by (auto simp: process_github_def split: if_splits)
  obtain s' where b: "build_response env s3 clone name (JObj items) = (Inr r, s')"
    using assms(1,2) g tr
    by (cases "build_response env s3 clone name (JObj items)")
       (auto simp: process_github_def process_body_def split: sum.splits)
  show ?thesis by (rule build_response_archive [OF b wf3 ns assms(6,7,8)])
qed

theorem archive_is_mapping_witness:
  "(\<exists>r. fst (process_github env_project world0 data0) = Inr r
       \<and> set (body r) = {(''Views/a.cshtml'', ''x''), (''Program.cs'', ''y'')}
       \<and> distinct (map fst (body r)))
   \<and> (\<exists>r. fst (process_github env_project world0 data_slash) = Inr r
       \<and> set (body r) = {(''Views/a.cshtml'', ''x''), (''Program.cs'', ''y'')}
       \<and> distinct (map fst (body r)))"
proof -
  let ?items = "[(''Views/a.cshtml'', JStr ''x''), (''Program.cs'', JStr ''y'')]"
  let ?r = "\<lparr>body = [(''Program.cs'', ''y''), (''Views/a.cshtml'', ''x'')],
               media_type = ''application/zip'',
               headers = [(''Content-Disposition'', ''attachment; filename=shop_mvc_project.zip'')]\<rparr>"
  let ?r' = "\<lparr>body = [(''Program.cs'', ''y''), (''Views/a.cshtml'', ''x'')],
               media_type = ''application/zip'',
               headers = [(''Content-Disposition'', ''attachment; filename=_mvc_project.zip'')]\<rparr>"
  have wf: "wf_disk (disk world0)" by code_simp
  have ck: "list_all clean_key (map fst ?items)" by code_simp
  have dk: "distinct (map fst ?items)" by simp
  have im: "(\<lambda>(k, v). (k, file_text env_project v)) ` set ?items
            = {(''Views/a.cshtml'', ''x''), (''Program.cs'', ''y'')}"
    by (simp add: file_text_def)
  have h1: "fst (process_github env_project world0 (JObj [(''githubUrl'', JStr ''https://github.com/u/shop.git'')]))
        = Inr ?r"
    by code_simp
  have u1: "dict_get [(''githubUrl'', JStr ''https://github.com/u/shop.git'')] ''githubUrl'' JNull
        = JStr ''https://github.com/u/shop.git''"
    by code_simp
  have g1: "fst (clone_analyze_generate env_project world0 (JStr ''https://github.com/u/shop.git''))
        = Inr (''/tmp/t1'', ''shop'', JObj ?items)"
    by code_simp
  have t1: "case git_clone env_project ''https://github.com/u/shop.git'' of Inr t \<Rightarrow> wf_tree t | Inl e \<Rightarrow> True"
    by code_simp
  have n1: "''shop'' \<noteq> ''..''" by simp
  have h2: "fst (process_github env_project world0 (JObj [(''githubUrl'', JStr ''https://github.com/u/shop/'')]))
        = Inr ?r'"
    by code_simp
  have u2: "dict_get [(''githubUrl'', JStr ''https://github.com/u/shop/'')] ''githubUrl'' JNull
        = JStr ''https://github.com/u/shop/''"
    by code_simp
  have g2: "fst (clone_analyze_generate env_project world0 (JStr ''https://github.com/u/shop/''))
        = Inr (''/tmp/t1'', [], JObj ?items)"
    by code_simp
  have t2: "case git_clone env_project ''https://github.com/u/shop/'' of Inr t \<Rightarrow> wf_tree t | Inl e \<Rightarrow> True"
    by code_simp
  have n2: "[] \<noteq> ''..''" by simp
  have a: "set (body ?r) = {(''Views/a.cshtml'', ''x''), (''Program.cs'', ''y'')} \<and> distinct (map fst (body ?r))"
    using archive_is_mapping [OF h1 u1 g1 wf t1 n1 ck dk] unfolding im .
  have b: "set (body ?r') = {(''Views/a.cshtml'', ''x''), (''Program.cs'', ''y'')} \<and> distinct (map fst (body ?r'))"
    using archive_is_mapping [OF h2 u2 g2 wf t2 n2 ck dk] unfolding im .
  from a b h1 h2 show ?thesis unfolding data0_def data_slash_def by blast
qed

text \<open>The claim as it stands fails. The key \<^verbatim>\<open>../b.txt\<close> of the first mapping is written
  next to the project directory, the request succeeds, and the archive has no entry for
  it. And for a URL that ends in \<^verbatim>\<open>...git\<close> the project name is \<^verbatim>\<open>..\<close>, the project
  directory is the temporary directory itself, and the archive has, beside the two files
  of the mapping, the zip of the clone and the file of the clone.\<close>

theorem key_outside_project_counterexample:
  "fst (clone_analyze_generate env_escape world0 (JStr ''https://github.com/u/shop.git''))
     = Inr (''/tmp/t1'', ''shop'', JObj [(''Views/a.cshtml'', JStr ''x''), (''../b.txt'', JStr ''y'')])
   \<and> fst (process_github env_escape world0 data0)
     = Inr \<lparr>body = [(''Views/a.cshtml'', ''x'')],
             media_type = ''application/zip'',
             headers = [(''Content-Disposition'', ''attachment; filename=shop_mvc_project.zip'')]\<rparr>
   \<and> fst (clone_analyze_generate env_project world0 (JStr ''https://github.com/u/...git''))
     = Inr (''/tmp/t1'', ''..'', JObj [(''Views/a.cshtml'', JStr ''x''), (''Program.cs'', JStr ''y'')])
   \<and> fst (process_github env_project world0 data_dots)
     = Inr \<lparr>body = [(''cloned_repo.zip'', ''zip''), (''Program.cs'', ''y''), (''t1/a.asp'', ''hi''),
                     (''Views/a.cshtml'', ''x'')],
             media_type = ''application/zip'',
             headers = [(''Content-Disposition'', ''attachment; filename=.._mvc_project.zip'')]\<rparr>"
  by code_simp

text \<open>
  C4, as amended. The clone and the analysis done, when the service answers the
  generation prompt and the answer does not parse as JSON, \<^verbatim>\<open>generate_mvc_with_openai\<close>
  prints the failure and returns the empty mapping; nothing is raised, and the request
  goes on with that mapping as with any other: what it answers is what the rest of the
  \<^verbatim>\<open>try\<close> body makes of the empty mapping, and when it succeeds (on a well-formed disk
  and clone, for a project name other than \<^verbatim>\<open>..\<close>) the archive of the response has no
  entries. An exception of any other class, raised by the call to the service or by
  \<^verbatim>\<open>json.loads\<close>, leaves \<^verbatim>\<open>generate_mvc_with_openai\<close>, and the request ends with status
  500 and the message of the exception as detail.
\<close>

theorem generation_parse_failure_gives_empty:
  assumes "dict_get d ''githubUrl'' JNull = JStr url" and "url \<noteq> []"
      and "clone_and_zip_repo env s (JStr url) = (Some (zip_path, temp_clone_path), s1)"
      and "analyze_asp_project env s1 temp_clone_path = (asp_structure, s2)"
      and "project_name = remove_dotgit (last (split_sep url))"
  shows
    "(\<forall>response m.
        llm_invoke env (length (llm_calls s2)) (mvc_prompt env asp_structure project_name) = Inr response \<longrightarrow>
        parse_response env response = Inl (JSONDecodeError m) \<longrightarrow>
          generate_mvc_with_openai env s2 asp_structure project_name =
            (Inr (JObj []),
             s2\<lparr>llm_calls := llm_calls s2 @ [mvc_prompt env asp_structure project_name],
                console := console s2 @
                  [''Generating MVC project files for '' @ project_name @ '' with analysis data.'',
                   ''Raw OpenAI Response: '' @ response,
                   ''Error generating MVC project files'']\<rparr>)
        \<and> process_body env s (JStr url) =
            build_response env (snd (generate_mvc_with_openai env s2 asp_structure project_name))
              temp_clone_path project_name (JObj [])
        \<and> (\<forall>r. fst (process_github env s (JObj d)) = Inr r \<longrightarrow> wf_disk (disk s) \<longrightarrow>
               (\<forall>t. git_clone env url = Inr t \<longrightarrow> wf_tree t) \<longrightarrow> project_name \<noteq> ''..'' \<longrightarrow>
               body r = []))
   \<and> (\<forall>e.
        (llm_invoke env (length (llm_calls s2)) (mvc_prompt env asp_structure project_name) = Inl e
         \<or> (\<exists>response.
               llm_invoke env (length (llm_calls s2)) (mvc_prompt env asp_structure project_name) = Inr response
             \<and> parse_response env response = Inl e)) \<longrightarrow>
        (\<forall>m. e \<noteq> JSONDecodeError m) \<longrightarrow>
          fst (generate_mvc_with_openai env s2 asp_structure project_name) = Inl e
        \<and> fst (process_github env s (JObj d)) = Inl (HTTPException 500 (exn_str e)))"
proof (intro conjI allI impI)
  note cag = clone_analyze_generate_stages [OF assms(3,4), folded assms(5)]
  have tr: "truthy (dict_get d ''githubUrl'' JNull)" using assms(1,2) by simp
  {
    fix response m
    assume i: "llm_invoke env (length (llm_calls s2)) (mvc_prompt env asp_structure project_name) = Inr response"
      and p: "parse_response env response = Inl (JSONDecodeError m)"
    show gen: "generate_mvc_with_openai env s2 asp_structure project_name =
            (Inr (JObj []),
             s2\<lparr>llm_calls := llm_calls s2 @ [mvc_prompt env asp_structure project_name],
                console := console s2 @
                  [''Generating MVC project files for '' @ project_name @ '' with analysis data.'',
                   ''Raw OpenAI Response: '' @ response,
                   ''Error generating MVC project files'']\<rparr>)"
      using i p by (simp add: generate_mvc_with_openai_def llm_chain_invoke_def print_def)
    show pb: "process_body env s (JStr url) =
            build_response env (snd (generate_mvc_with_openai env s2 asp_structure project_name))
              temp_clone_path project_name (JObj [])"
      by (simp add: process_body_def cag gen)
    fix r
    assume ok: "fst (process_github env s (JObj d)) = Inr r" and wf: "wf_disk (disk s)"
      and tree: "\<forall>t. git_clone env url = Inr t \<longrightarrow> wf_tree t" and nd: "project_name \<noteq> ''..''"
    let ?s3 = "snd (generate_mvc_with_openai env s2 asp_structure project_name)"
    have g: "clone_analyze_generate env s (JStr url) = (Inr (temp_clone_path, project_name, JObj []), ?s3)"
      by (simp add: cag gen)
    have wf3: "wf_disk (disk ?s3)"
      using clone_analyze_generate_wf [OF wf _ g] tree by simp
    have ns: "CHR ''/'' \<notin> set project_name" unfolding assms(5) by (rule project_name_no_slash)
    obtain s' where b: "build_response env ?s3 temp_clone_path project_name (JObj []) = (Inr r, s')"
      using ok tr assms(1) pb
      by (cases "build_response env ?s3 temp_clone_path project_name (JObj [])")
         (auto simp: process_github_def Let_def split: sum.splits)
    from build_response_archive [OF b wf3 ns nd] show "body r = []" by simp
  }
  {
    fix e
    assume i: "llm_invoke env (length (llm_calls s2)) (mvc_prompt env asp_structure project_name) = Inl e
         \<or> (\<exists>response.
               llm_invoke env (length (llm_calls s2)) (mvc_prompt env asp_structure project_name) = Inr response
             \<and> parse_response env response = Inl e)"
      and ne: "\<forall>m. e \<noteq> JSONDecodeError m"
    show gen: "fst (generate_mvc_with_openai env s2 asp_structure project_name) = Inl e"
      using i ne
      by (cases e) (auto simp: generate_mvc_with_openai_def llm_chain_invoke_def print_def)
    then have "fst (clone_analyze_generate env s (JStr url)) = Inl e"
      by (cases "generate_mvc_with_openai env s2 asp_structure project_name") (simp add: cag)
    then have "fst (process_body env s (JStr url)) = Inl e"
      by (cases "clone_analyze_generate env s (JStr url)") (simp add: process_body_def)
    then show "fst (process_github env s (JObj d)) = Inl (HTTPException 500 (exn_str e))"
      using tr assms(1)
      by (cases "process_body env s (JStr url)") (simp add: process_github_def)
  }
qed

theorem generation_parse_failure_gives_empty_witness:
  "fst (clone_analyze_generate env_prose world0 (JStr ''https://github.com/u/shop.git''))
     = Inr (''/tmp/t1'', ''shop'', JObj [])
   \<and> (\<exists>r. fst (process_github env_prose world0 data0) = Inr r \<and> body r = [])
   \<and> fst (process_github env_down world0 data0) = Inl (HTTPException 500 ''Connection error'')"
proof -
  let ?url = "''https://github.com/u/shop.git''"
  let ?d = "[(''githubUrl'', JStr ?url)]"
  let ?r = "\<lparr>body = [], media_type = ''application/zip'',
         headers = [(''Content-Disposition'', ''attachment; filename=shop_mvc_project.zip'')]\<rparr>"
  have u: "dict_get ?d ''githubUrl'' JNull = JStr ?url" by code_simp
  have ne: "?url \<noteq> []" by simp
  have n: "''shop'' = remove_dotgit (last (split_sep ?url))" by code_simp
  have wf: "wf_disk (disk world0)" by code_simp
  have nd: "''shop'' \<noteq> ''..''" by simp
  let ?s1 = "snd (clone_and_zip_repo env_prose world0 (JStr ?url))"
  let ?ps = "fst (analyze_asp_project env_prose ?s1 ''/tmp/t1'')"
  let ?s2 = "snd (analyze_asp_project env_prose ?s1 ''/tmp/t1'')"
  have c: "clone_and_zip_repo env_prose world0 (JStr ?url) = (Some (''/tmp/cloned_repo.zip'', ''/tmp/t1''), ?s1)"
    by code_simp
  have a: "analyze_asp_project env_prose ?s1 ''/tmp/t1'' = (?ps, ?s2)" by simp
  have i: "llm_invoke env_prose (length (llm_calls ?s2)) (mvc_prompt env_prose ?ps ''shop'')
           = Inr ''Sorry, I cannot do that''"
    by code_simp
  have p: "parse_response env_prose ''Sorry, I cannot do that'' = Inl (JSONDecodeError ''Expecting value'')"
    by code_simp
  have tree: "\<forall>t. git_clone env_prose ?url = Inr t \<longrightarrow> wf_tree t"
    by (simp add: env_prose_def env0_def wf_tree_def)
  have h: "fst (process_github env_prose world0 (JObj ?d)) = Inr ?r" by code_simp
  note t = generation_parse_failure_gives_empty [OF u ne c a n]
  from t i p have gen: "fst (generate_mvc_with_openai env_prose ?s2 ?ps ''shop'') = Inr (JObj [])"
    by simp
  have g: "fst (clone_analyze_generate env_prose world0 (JStr ?url)) = Inr (''/tmp/t1'', ''shop'', JObj [])"
    using gen clone_analyze_generate_stages [OF c a, folded n]
    by (cases "generate_mvc_with_openai env_prose ?s2 ?ps ''shop''") simp
  from t i p h wf tree nd have b: "body ?r = []" by blast
  let ?t1 = "snd (clone_and_zip_repo env_down world0 (JStr ?url))"
  let ?qs = "fst (analyze_asp_project env_down ?t1 ''/tmp/t1'')"
  let ?t2 = "snd (analyze_asp_project env_down ?t1 ''/tmp/t1'')"
  have c': "clone_and_zip_repo env_down world0 (JStr ?url) = (Some (''/tmp/cloned_repo.zip'', ''/tmp/t1''), ?t1)"
    by code_simp
  have a': "analyze_asp_project env_down ?t1 ''/tmp/t1'' = (?qs, ?t2)" by simp
  have i': "llm_invoke env_down (length (llm_calls ?t2)) (mvc_prompt env_down ?qs ''shop'')
           = Inl (OtherException ''Connection error'')"
    by code_simp
  note t' = generation_parse_failure_gives_empty [OF u ne c' a' n]
  from t' i' have f: "fst (process_github env_down world0 (JObj ?d)) = Inl (HTTPException 500 ''Connection error'')"
    by auto
  from g h b f show ?thesis unfolding data0_def by blast
qed

text \<open>The claim as it stands fails: when the call to the service raises anything but
  \<^verbatim>\<open>JSONDecodeError\<close>, the exception leaves \<^verbatim>\<open>generate_mvc_with_openai\<close> and the request
  ends with status 500.\<close>

theorem generation_failure_propagates_counterexample:
  "fst (generate_mvc_with_openai env_down (world0\<lparr>llm_calls := [''/tmp/t1/a.asp'']\<rparr>) empty_structure ''shop'')
     = Inl (OtherException ''Connection error'')
   \<and> fst (process_github env_down world0 data0) = Inl (HTTPException 500 ''Connection error'')"
  by code_simp

text \<open>
  C7, as amended. On every request that succeeds, cleaning up is the last stage: the
  archive of the response is taken and the copy for the Downloads folder is written
  before, the state the request leaves is the state after that copy with the disk that
  the two \<^verbatim>\<open>rmtree\<close> calls return, and on that disk neither the temporary clone directory
  nor the temporary output directory exists.
\<close>

theorem temp_dirs_removed:
  assumes "fst (process_github env s data) = Inr r"
  shows "\<exists>d url zip_path temp_clone_path s1 project_name items s3 output_dir s4 fs5 fs6 s7 fs8.
      data = JObj d \<and> dict_get d ''githubUrl'' JNull = JStr url
    \<and> clone_and_zip_repo env s (JStr url) = (Some (zip_path, temp_clone_path), s1)
    \<and> clone_analyze_generate env s (JStr url) = (Inr (temp_clone_path, project_name, JObj items), s3)
    \<and> mkdtemp env s3 = (Inr output_dir, s4)
    \<and> os_makedirs (disk s4) (os_path_join output_dir project_name) = (Inr (), fs5)
    \<and> write_project_files env fs5 (os_path_join output_dir project_name) items = (Inr (), fs6)
    \<and> zip_tree fs6 (os_path_join output_dir project_name) = Inr (body r)
    \<and> save_zip_to_downloads env (s4\<lparr>disk := fs6\<rparr>) (os_path_join output_dir project_name)
          (project_name @ ''.zip'') = (Inr (), s7)
    \<and> clean_up (disk s7) temp_clone_path output_dir = Inr fs8
    \<and> snd (process_github env s data) = s7\<lparr>disk := fs8\<rparr>
    \<and> \<not> os_path_exists fs8 temp_clone_path
    \<and> \<not> os_path_exists fs8 output_dir"
proof -
  from process_github_stages [OF assms] obtain d url zp clone s1 ps s2 mvc s3 where
    d: "data = JObj d" and u: "dict_get d ''githubUrl'' JNull = JStr url"
    and c: "clone_and_zip_repo env s (JStr url) = (Some (zp, clone), s1)"
    and a: "analyze_asp_project env s1 clone = (ps, s2)"
    and gen: "generate_mvc_with_openai env s2 ps (remove_dotgit (last (split_sep url))) = (Inr mvc, s3)"
    and g: "clone_analyze_generate env s (JStr url) = (Inr (clone, remove_dotgit (last (split_sep url)), mvc), s3)"
    and b: "build_response env s3 clone (remove_dotgit (last (split_sep url))) mvc
        = (Inr r, snd (process_github env s data))"
    by blast
  let ?name = "remove_dotgit (last (split_sep url))"
  have d2: "disk s2 = disk s1" using analyze_asp_project_disk [of env s1 clone] a by simp
  have d3: "disk s3 = disk s1" using generate_disk [of env s2 ps ?name] gen d2 by simp
  from clone_dir_is_dir [OF c] obtain pc where
    pc: "resolve (disk s3) clone = Inr pc" "lookup (disk s3) pc = Some Dir" "pc \<noteq> []"
    unfolding d3 by blast
  from build_response_stages [OF b] obtain items out s4 fs5 fs6 s7 fs8 where
    st: "mvc = JObj items" "mkdtemp env s3 = (Inr out, s4)"
      "os_makedirs (disk s4) (os_path_join out ?name) = (Inr (), fs5)"
      "write_project_files env fs5 (os_path_join out ?name) items = (Inr (), fs6)"
      "zip_tree fs6 (os_path_join out ?name) = Inr (body r)"
      "save_zip_to_downloads env (s4\<lparr>disk := fs6\<rparr>) (os_path_join out ?name) (?name @ ''.zip'') = (Inr (), s7)"
      "clean_up (disk s7) clone out = Inr fs8"
      "snd (process_github env s data) = s7\<lparr>disk := fs8\<rparr>"
    by blast
  from build_response_cleans [OF b pc] st(2,8)
  have ne: "\<not> os_path_exists fs8 clone" "\<not> os_path_exists fs8 out"
    by auto
  show ?thesis
    using d u c g [unfolded st(1)] st(2-8) ne by blast
qed

theorem temp_dirs_removed_witness:
  "\<exists>r d url zip_path temp_clone_path s1 project_name items s3 output_dir s4 fs5 fs6 s7 fs8.
      fst (process_github env_project world0 data0) = Inr r
    \<and> data0 = JObj d \<and> dict_get d ''githubUrl'' JNull = JStr url
    \<and> clone_and_zip_repo env_project world0 (JStr url) = (Some (zip_path, temp_clone_path), s1)
    \<and> clone_analyze_generate env_project world0 (JStr url)
        = (Inr (temp_clone_path, project_name, JObj items), s3)
    \<and> mkdtemp env_project s3 = (Inr output_dir, s4)
    \<and> os_makedirs (disk s4) (os_path_join output_dir project_name) = (Inr (), fs5)
    \<and> write_project_files env_project fs5 (os_path_join output_dir project_name) items = (Inr (), fs6)
    \<and> zip_tree fs6 (os_path_join output_dir project_name) = Inr (body r)
    \<and> save_zip_to_downloads env_project (s4\<lparr>disk := fs6\<rparr>) (os_path_join output_dir project_name)
          (project_name @ ''.zip'') = (Inr (), s7)
    \<and> clean_up (disk s7) temp_clone_path output_dir = Inr fs8
    \<and> snd (process_github env_project world0 data0) = s7\<lparr>disk := fs8\<rparr>
    \<and> \<not> os_path_exists fs8 temp_clone_path
    \<and> \<not> os_path_exists fs8 output_dir"
proof -
  have h: "fst (process_github env_project world0 data0)
        = Inr \<lparr>body = [(''Program.cs'', ''y''), (''Views/a.cshtml'', ''x'')], media_type = ''application/zip'',
               headers = [(''Content-Disposition'', ''attachment; filename=shop_mvc_project.zip'')]\<rparr>"
    by code_simp
  from h temp_dirs_removed [OF h] show ?thesis by blast
qed

text \<open>The claim as it stands fails: the zip of the clone, which the request wrote to
  \<^verbatim>\<open>cloned_repo.zip\<close> in the temporary directory, is still there after the response.\<close>

theorem files_left_behind_counterexample:
  "fst (process_github env0 world0 data0)
     = Inr \<lparr>body = [], media_type = ''application/zip'',
            headers = [(''Content-Disposition'', ''attachment; filename=shop_mvc_project.zip'')]\<rparr>
   \<and> lookup (disk world0) [''tmp'', ''cloned_repo.zip''] = None
   \<and> lookup (disk (snd (process_github env0 world0 data0))) [''tmp'', ''cloned_repo.zip''] = Some (File ''zip'')"
  by code_simp

end
